theory Spec2Isabelle
  imports Complex_Main "HOL-Library.Word" "HOL-Library.Log_Nat"
begin

chapter \<open>The zane-ops CDN worker: anonymised visitor pings and their aggregation\<close>

text \<open>
  A shallow embedding of \<^verbatim>\<open>src/index.ts\<close> (the current revision, the first of the
  three revisions the file holds). Conventions of the embedding:

  \<^item> A JavaScript string is a \<^typ>\<open>string\<close>: the list of the bytes of its UTF-8 encoding,
    so \<^verbatim>\<open>TextEncoder.encode\<close> only changes the element type.
  \<^item> A JavaScript number that holds an integer (a time value in milliseconds, a page
    number, a row count) is an \<^typ>\<open>int\<close>; a quotient of two such numbers is a
    \<^typ>\<open>rat\<close>. This is exact for safe integers (magnitude below \<open>2 ^ 53\<close>).
  \<^item> \<^verbatim>\<open>crypto.subtle\<close> (SHA-256, HMAC-SHA-256) is a primitive of the platform: the
    two functions are parameters of the model, collected in a record.
  \<^item> The D1 database is explicit state: the rows of the two tables, in insertion order.
    Every handler takes the state and returns the new one with its response.
  \<^item> The clock (\<^verbatim>\<open>new Date()\<close>) is an explicit parameter \<open>now\<close>.
  \<^item> A handler is the \<^verbatim>\<open>case\<close> block of its path in \<^verbatim>\<open>fetch\<close>. The CORS preflight that
    \<^verbatim>\<open>fetch\<close> answers before the dispatch and the CORS headers are left out, and so are
    failures of the storage or of the hashing primitive that no handler catches.
\<close>

section \<open>The program\<close>

subsection \<open>Identity hashing\<close>

type_synonym byte = "8 word"

record SubtleCrypto =
  digest_SHA256 :: "byte list \<Rightarrow> byte list"
  sign_HMAC_SHA256 :: "byte list \<Rightarrow> byte list \<Rightarrow> byte list"

text \<open>\<^verbatim>\<open>new TextEncoder().encode(message)\<close>: the UTF-8 bytes of the string.\<close>

definition encode :: "string \<Rightarrow> byte list" where
  "encode message = map of_char message"

text \<open>\<^verbatim>\<open>b.toString(16)\<close>: the digits of \<open>b\<close> in base 16, lower case, no leading zero.\<close>

definition hexDigit :: "nat \<Rightarrow> char" where
  "hexDigit d = ''0123456789abcdef'' ! d"

fun toString16 :: "nat \<Rightarrow> string" where
  "toString16 n =
     (if n < 16 then [hexDigit n] else toString16 (n div 16) @ [hexDigit (n mod 16)])"

declare toString16.simps [simp del]

text \<open>
  \<^verbatim>\<open>s.padStart(targetLength, padString)\<close>: \<open>s\<close> itself when it is long enough (or the
  pad is empty), otherwise the pad repeated and cut to the missing length, then \<open>s\<close>.
\<close>

definition padStart :: "nat \<Rightarrow> string \<Rightarrow> string \<Rightarrow> string" where
  "padStart targetLength padString s =
     (if targetLength \<le> length s \<or> padString = [] then s
      else take (targetLength - length s)
             (concat (replicate (targetLength - length s) padString)) @ s)"

text \<open>\<^verbatim>\<open>hashArray.map((b) => b.toString(16).padStart(2, "0")).join("")\<close>\<close>

definition hashHex :: "byte list \<Rightarrow> string" where
  "hashHex hashArray = concat (map (\<lambda>b. padStart 2 ''0'' (toString16 (unat b))) hashArray)"

definition generate256Hash :: "SubtleCrypto \<Rightarrow> string \<Rightarrow> string" where
  "generate256Hash subtle message =
     (let msgUint8 = encode message;
          hashBuffer = digest_SHA256 subtle msgUint8
      in hashHex hashBuffer)"

definition generateHMAC256 :: "SubtleCrypto \<Rightarrow> string \<Rightarrow> string \<Rightarrow> string" where
  "generateHMAC256 subtle message secret =
     (let keyData = encode secret;
          signed_message = sign_HMAC_SHA256 subtle keyData (encode message)
      in hashHex signed_message)"

definition generateDoubleHash :: "SubtleCrypto \<Rightarrow> string \<Rightarrow> string \<Rightarrow> string" where
  "generateDoubleHash subtle ip secret =
     generateHMAC256 subtle (generate256Hash subtle ip) secret"

text \<open>
  The specification's wording of the identifier, for comparison with the code: the hex
  encoding (two digits per byte, high nibble first) of the HMAC-SHA-256, keyed by the
  pepper, of the hex-encoded SHA-256 digest of the UTF-8 address.
\<close>

definition hex_encode_spec :: "byte list \<Rightarrow> string" where
  "hex_encode_spec bs = concat (map (\<lambda>b. [hexDigit (unat b div 16), hexDigit (unat b mod 16)]) bs)"

definition identifier_spec :: "SubtleCrypto \<Rightarrow> string \<Rightarrow> string \<Rightarrow> string" where
  "identifier_spec subtle address pepper =
     hex_encode_spec (sign_HMAC_SHA256 subtle (encode pepper)
       (encode (hex_encode_spec (digest_SHA256 subtle (encode address)))))"

text \<open>
  A stand-in for the platform's two primitives, to run the model on concrete inputs. It
  is not SHA-256; no general theorem depends on it.
\<close>

definition sample_subtle :: SubtleCrypto where
  "sample_subtle = \<lparr>digest_SHA256 = take 1, sign_HMAC_SHA256 = (\<lambda>k m. k @ take 2 m)\<rparr>"

subsection \<open>Durations\<close>

datatype unit_name = seconds | minutes | hours | days | weeks

fun multipliers :: "unit_name \<Rightarrow> int" where
  "multipliers seconds = 1000"
| "multipliers minutes = 60 * 1000"
| "multipliers hours = 60 * 60 * 1000"
| "multipliers days = 24 * 60 * 60 * 1000"
| "multipliers weeks = 7 * 24 * 60 * 60 * 1000"

definition durationToMs :: "int \<Rightarrow> unit_name \<Rightarrow> int" where
  "durationToMs v u = v * multipliers u"

subsection \<open>The database and the visitor registry\<close>

text \<open>
  The two tables. A row of \<^verbatim>\<open>ip_pings\<close> is \<open>(ip_hmac, ping_timestamp)\<close>, the timestamp
  as the time value (milliseconds since the epoch) that \<^verbatim>\<open>new Date(ping_timestamp)\<close>
  reads from the stored text.
\<close>

record D1Database =
  ip_registry :: "string list"
  ip_pings :: "(string \<times> int) list"

record Env =
  IP_HASH_PEPPER :: string
  DB :: D1Database

text \<open>
  Modelled from the spec: the declaration of table \<^verbatim>\<open>ip_registry\<close> is not among the
  sources. The identifier "acts as primary key" and the storage offers an atomic
  insert-if-absent, so \<^verbatim>\<open>INSERT INTO ip_registry (ip_hmac) VALUES (?) ON CONFLICT DO NOTHING\<close>
  conflicts exactly when a row with that \<^verbatim>\<open>ip_hmac\<close> exists.
\<close>

definition insert_ip_registry :: "string \<Rightarrow> D1Database \<Rightarrow> D1Database" where
  "insert_ip_registry hmac db =
     (if hmac \<in> set (ip_registry db) then db
      else db\<lparr>ip_registry := ip_registry db @ [hmac]\<rparr>)"

text \<open>\<^verbatim>\<open>upsertIp\<close> returns \<^verbatim>\<open>{ hmac }\<close>; the second component is the state after it.\<close>

definition upsertIp :: "SubtleCrypto \<Rightarrow> string \<Rightarrow> Env \<Rightarrow> string \<times> Env" where
  "upsertIp subtle ip env =
     (let hmac = generateDoubleHash subtle ip (IP_HASH_PEPPER env)
      in (hmac, env\<lparr>DB := insert_ip_registry hmac (DB env)\<rparr>))"

subsection \<open>The ping handler\<close>

datatype Response =
    Text_Response nat string
  | Ping_Response nat bool string

text \<open>
  \<^verbatim>\<open>SELECT ping_timestamp FROM ip_pings WHERE ip_hmac = ? ORDER BY ping_timestamp DESC LIMIT 1\<close>
  with \<^verbatim>\<open>.first()\<close>: the greatest timestamp of the identifier, \<open>None\<close> (null) without a row.
  A stored timestamp is a non-empty text, so \<^verbatim>\<open>lastPingResult?.ping_timestamp\<close> is truthy
  exactly when there is a row.
\<close>

definition lastPingResult :: "D1Database \<Rightarrow> string \<Rightarrow> int option" where
  "lastPingResult db ipHmac =
     (let ts = map snd (filter (\<lambda>r. fst r = ipHmac) (ip_pings db))
      in if ts = [] then None else Some (Max (set ts)))"

text \<open>
  Modelled from the spec: the declaration of table \<^verbatim>\<open>ip_pings\<close> is not among the
  sources; \<^verbatim>\<open>INSERT INTO ip_pings (ip_hmac) VALUES (?)\<close> leaves the timestamp to the
  column's default, which is the "event time", the request's \<open>now\<close>.
\<close>

definition insert_ip_pings :: "string \<Rightarrow> int \<Rightarrow> D1Database \<Rightarrow> D1Database" where
  "insert_ip_pings hmac now db = db\<lparr>ip_pings := ip_pings db @ [(hmac, now)]\<rparr>"

text \<open>
  The throttle decision, lines 245 to 256: \<open>True\<close> without a last ping, otherwise whether
  the elapsed time divided by thirty minutes is at least one.
\<close>

definition shouldRecordPing :: "int option \<Rightarrow> int \<Rightarrow> bool" where
  "shouldRecordPing lastPing currentTime =
     (case lastPing of
        None \<Rightarrow> True
      | Some lastPingTime \<Rightarrow>
          (let minutesDifference =
                 (of_int (currentTime - lastPingTime) :: rat) / of_int (durationToMs 30 minutes)
           in minutesDifference \<ge> 1))"

text \<open>
  \<^verbatim>\<open>case "/api/ping"\<close>. The request is its method, its \<^verbatim>\<open>cf-connecting-ip\<close> header
  (\<open>None\<close> when absent; an empty string is falsy too) and the clock reading.
\<close>

definition ping_handler :: "SubtleCrypto \<Rightarrow> string \<Rightarrow> string option \<Rightarrow> int \<Rightarrow> Env \<Rightarrow> Response \<times> Env" where
  "ping_handler subtle method ip now env =
     (if method \<noteq> ''POST'' then (Text_Response 405 ''Method Not Allowed'', env)
      else case ip of
        None \<Rightarrow> (Ping_Response 400 False ''IP address not found in request'', env)
      | Some ipv \<Rightarrow>
          if ipv = [] then (Ping_Response 400 False ''IP address not found in request'', env)
          else
            (let (ipHmac, env1) = upsertIp subtle ipv env in
             if shouldRecordPing (lastPingResult (DB env1) ipHmac) now
             then (Ping_Response 200 True ''Ping recorded successfully'',
                   env1\<lparr>DB := insert_ip_pings ipHmac now (DB env1)\<rparr>)
             else (Ping_Response 200 False
                     ''Ping not recorded - less than 30 minutes since last ping'', env1)))"

text \<open>A run of requests to \<^verbatim>\<open>/api/ping\<close>, each \<open>(method, header, clock)\<close>, in order.\<close>

fun ping_run :: "SubtleCrypto \<Rightarrow> (string \<times> string option \<times> int) list \<Rightarrow> Env \<Rightarrow> Env" where
  "ping_run subtle [] env = env"
| "ping_run subtle ((method, ip, now) # reqs) env =
     ping_run subtle reqs (snd (ping_handler subtle method ip now env))"

text \<open>
  The stored timestamps of one identifier, in insertion order, and the separation of
  consecutive ones by at least \<open>T\<close>.
\<close>

definition timestamps_of :: "string \<Rightarrow> D1Database \<Rightarrow> int list" where
  "timestamps_of h db = map snd (filter (\<lambda>r. fst r = h) (ip_pings db))"

fun separated :: "int \<Rightarrow> int list \<Rightarrow> bool" where
  "separated T [] = True"
| "separated T [x] = True"
| "separated T (x # y # ys) = (y - x \<ge> T \<and> separated T (y # ys))"

text \<open>The spec's name for the interval the handler writes inline.\<close>

definition MIN_INTERVAL :: int where
  "MIN_INTERVAL = durationToMs 30 minutes"

subsection \<open>Dates\<close>

text \<open>
  \<^verbatim>\<open>Date\<close> is a primitive of the platform. The model follows ECMA-262, section 21.4.1:
  a time value is a number of milliseconds since 1970-01-01T00:00:00Z, days have
  86400000 milliseconds, and the calendar is the proleptic Gregorian one. Workers run
  in UTC, so the local time zone adjustment is zero and the local-time methods
  (\<^verbatim>\<open>getHours\<close>, \<^verbatim>\<open>setDate\<close>, ...) read and write UTC fields.
\<close>

definition msPerDay :: int where "msPerDay = 86400000"
definition msPerHour :: int where "msPerHour = 3600000"
definition msPerMinute :: int where "msPerMinute = 60000"
definition msPerSecond :: int where "msPerSecond = 1000"

definition Day :: "int \<Rightarrow> int" where
  "Day t = t div msPerDay"

definition TimeWithinDay :: "int \<Rightarrow> int" where
  "TimeWithinDay t = t mod msPerDay"

definition DaysInYear :: "int \<Rightarrow> int" where
  "DaysInYear y =
     (if y mod 4 \<noteq> 0 then 365
      else if y mod 100 \<noteq> 0 then 366
      else if y mod 400 \<noteq> 0 then 365
      else 366)"

definition DayFromYear :: "int \<Rightarrow> int" where
  "DayFromYear y =
     365 * (y - 1970) + (y - 1969) div 4 - (y - 1901) div 100 + (y - 1601) div 400"

text \<open>
  \<open>YearFromTime t\<close> is "the largest integer \<open>y\<close> such that \<open>TimeFromYear y \<le> t\<close>". It is
  computed by a search upwards from a year that is not too large; \<open>YearFromDay_bounds\<close>
  and \<open>YearFromDay_unique\<close> below show that the result is that largest year.
\<close>

function yearSearch :: "int \<Rightarrow> int \<Rightarrow> int" where
  "yearSearch d y = (if DayFromYear (y + 1) \<le> d then yearSearch d (y + 1) else y)"
  by pat_completeness auto
termination
proof (relation "measure (\<lambda>(d, y). nat (d - DayFromYear y))")
  show "wf (measure (\<lambda>(d, y). nat (d - DayFromYear y)))" by simp
next
  fix d y :: int
  assume le: "DayFromYear (y + 1) \<le> d"
  have a: "(y - 1969) div 4 \<le> (y - 1968) div 4"
    by (rule zdiv_mono1) simp_all
  have "(y - 1900) div 100 \<le> (y - 1901 + 100) div 100"
    by (rule zdiv_mono1) simp_all
  then have b: "(y - 1900) div 100 \<le> (y - 1901) div 100 + 1"
    by simp
  have c: "(y - 1601) div 400 \<le> (y - 1600) div 400"
    by (rule zdiv_mono1) simp_all
  have "DayFromYear (y + 1) =
      365 * y - 365 * 1969 + (y - 1968) div 4 - (y - 1900) div 100 + (y - 1600) div 400"
    by (simp add: DayFromYear_def)
  moreover have "DayFromYear y =
      365 * y - 365 * 1970 + (y - 1969) div 4 - (y - 1901) div 100 + (y - 1601) div 400"
    by (simp add: DayFromYear_def)
  ultimately have "DayFromYear y < DayFromYear (y + 1)"
    using a b c by linarith
  with le show "((d, y + 1), (d, y)) \<in> measure (\<lambda>(d, y). nat (d - DayFromYear y))"
    by simp
qed

declare yearSearch.simps [simp del]

definition YearFromDay :: "int \<Rightarrow> int" where
  "YearFromDay d = yearSearch d (1969 + (if d < 0 then d div 365 else d div 366))"

definition YearFromTime :: "int \<Rightarrow> int" where
  "YearFromTime t = YearFromDay (Day t)"

definition InLeapYear :: "int \<Rightarrow> int" where
  "InLeapYear t = (if DaysInYear (YearFromTime t) = 365 then 0 else 1)"

definition DayWithinYear :: "int \<Rightarrow> int" where
  "DayWithinYear t = Day t - DayFromYear (YearFromTime t)"

definition MonthFromTime :: "int \<Rightarrow> int" where
  "MonthFromTime t =
     (let d = DayWithinYear t; l = InLeapYear t in
      if d < 31 then 0
      else if d < 59 + l then 1
      else if d < 90 + l then 2
      else if d < 120 + l then 3
      else if d < 151 + l then 4
      else if d < 181 + l then 5
      else if d < 212 + l then 6
      else if d < 243 + l then 7
      else if d < 273 + l then 8
      else if d < 304 + l then 9
      else if d < 334 + l then 10
      else 11)"

definition DateFromTime :: "int \<Rightarrow> int" where
  "DateFromTime t =
     (let d = DayWithinYear t; l = InLeapYear t; m = MonthFromTime t in
      if m = 0 then d + 1
      else if m = 1 then d - 30
      else if m = 2 then d - 58 - l
      else if m = 3 then d - 89 - l
      else if m = 4 then d - 119 - l
      else if m = 5 then d - 150 - l
      else if m = 6 then d - 180 - l
      else if m = 7 then d - 211 - l
      else if m = 8 then d - 242 - l
      else if m = 9 then d - 272 - l
      else if m = 10 then d - 303 - l
      else d - 333 - l)"

definition HourFromTime :: "int \<Rightarrow> int" where
  "HourFromTime t = (t div msPerHour) mod 24"

definition MinFromTime :: "int \<Rightarrow> int" where
  "MinFromTime t = (t div msPerMinute) mod 60"

definition SecFromTime :: "int \<Rightarrow> int" where
  "SecFromTime t = (t div msPerSecond) mod 60"

definition msFromTime :: "int \<Rightarrow> int" where
  "msFromTime t = t mod msPerSecond"

definition MakeTime :: "int \<Rightarrow> int \<Rightarrow> int \<Rightarrow> int \<Rightarrow> int" where
  "MakeTime hour m sec ms = hour * msPerHour + m * msPerMinute + sec * msPerSecond + ms"

text \<open>The number of days of the year before month \<open>mn\<close> (0 is January), \<open>l\<close> the leap day.\<close>

definition DaysBeforeMonth :: "int \<Rightarrow> int \<Rightarrow> int" where
  "DaysBeforeMonth mn l =
     (if mn = 0 then 0
      else if mn = 1 then 31
      else if mn = 2 then 59 + l
      else if mn = 3 then 90 + l
      else if mn = 4 then 120 + l
      else if mn = 5 then 151 + l
      else if mn = 6 then 181 + l
      else if mn = 7 then 212 + l
      else if mn = 8 then 243 + l
      else if mn = 9 then 273 + l
      else if mn = 10 then 304 + l
      else 334 + l)"

definition DaysInMonth :: "int \<Rightarrow> int \<Rightarrow> int" where
  "DaysInMonth mn l =
     (if mn = 1 then 28 + l
      else if mn = 3 \<or> mn = 5 \<or> mn = 8 \<or> mn = 10 then 30
      else 31)"

text \<open>
  \<open>MakeDay\<close>: "find a time value \<open>t\<close> such that \<open>YearFromTime t\<close> is \<open>ym\<close>,
  \<open>MonthFromTime t\<close> is \<open>mn\<close> and \<open>DateFromTime t\<close> is 1; return \<open>Day t + dt - 1\<close>". The day
  of that \<open>t\<close> is computed from the tables; \<open>MakeDay_finds\<close> below shows it is the one.
  A date outside the month carries over into the following or preceding months.
\<close>

definition MakeDay :: "int \<Rightarrow> int \<Rightarrow> int \<Rightarrow> int" where
  "MakeDay year month date =
     (let ym = year + month div 12;
          mn = month mod 12;
          l = (if DaysInYear ym = 365 then 0 else 1)
      in DayFromYear ym + DaysBeforeMonth mn l + date - 1)"

definition MakeDate :: "int \<Rightarrow> int \<Rightarrow> int" where
  "MakeDate day time = day * msPerDay + time"

text \<open>A time value beyond 100,000,000 days from the epoch is not a time value: NaN.\<close>

definition TimeClip :: "int \<Rightarrow> int option" where
  "TimeClip time = (if \<bar>time\<bar> > 8640000000000000 then None else Some time)"

definition LocalTZA :: int where
  "LocalTZA = 0"

definition LocalTime :: "int \<Rightarrow> int" where
  "LocalTime t = t + LocalTZA"

definition UTC :: "int \<Rightarrow> int" where
  "UTC t = t - LocalTZA"

text \<open>
  A \<^verbatim>\<open>Date\<close> object is its time value, \<open>None\<close> for NaN (an invalid date). A numeric
  argument or result is an \<open>int option\<close> for the same reason. The setters return the
  object's new time value.
\<close>

type_synonym Date = "int option"

definition getHours :: "Date \<Rightarrow> int option" where
  "getHours this = map_option (\<lambda>t. HourFromTime (LocalTime t)) this"

definition getDate :: "Date \<Rightarrow> int option" where
  "getDate this = map_option (\<lambda>t. DateFromTime (LocalTime t)) this"

definition getMonth :: "Date \<Rightarrow> int option" where
  "getMonth this = map_option (\<lambda>t. MonthFromTime (LocalTime t)) this"

text \<open>\<^verbatim>\<open>setHours(hour)\<close>: minutes, seconds and milliseconds are kept.\<close>

definition setHours1 :: "Date \<Rightarrow> int option \<Rightarrow> Date" where
  "setHours1 this hour =
     (case (this, hour) of
        (Some t0, Some h) \<Rightarrow>
          (let t = LocalTime t0;
               date = MakeDate (Day t) (MakeTime h (MinFromTime t) (SecFromTime t) (msFromTime t))
           in TimeClip (UTC date))
      | _ \<Rightarrow> None)"

text \<open>\<^verbatim>\<open>setHours(hour, min, sec, ms)\<close>\<close>

definition setHours4 :: "Date \<Rightarrow> int option \<Rightarrow> int option \<Rightarrow> int option \<Rightarrow> int option \<Rightarrow> Date" where
  "setHours4 this hour minute sec ms =
     (case (this, hour, minute, sec, ms) of
        (Some t0, Some h, Some m, Some s, Some milli) \<Rightarrow>
          (let t = LocalTime t0;
               date = MakeDate (Day t) (MakeTime h m s milli)
           in TimeClip (UTC date))
      | _ \<Rightarrow> None)"

definition setDate :: "Date \<Rightarrow> int option \<Rightarrow> Date" where
  "setDate this date =
     (case (this, date) of
        (Some t0, Some dt) \<Rightarrow>
          (let t = LocalTime t0;
               newDate = MakeDate (MakeDay (YearFromTime t) (MonthFromTime t) dt) (TimeWithinDay t)
           in TimeClip (UTC newDate))
      | _ \<Rightarrow> None)"

text \<open>\<^verbatim>\<open>setMonth(month)\<close>: the day of the month is kept.\<close>

definition setMonth :: "Date \<Rightarrow> int option \<Rightarrow> Date" where
  "setMonth this month =
     (case (this, month) of
        (Some t0, Some m) \<Rightarrow>
          (let t = LocalTime t0;
               dt = DateFromTime t;
               newDate = MakeDate (MakeDay (YearFromTime t) m dt) (TimeWithinDay t)
           in TimeClip (UTC newDate))
      | _ \<Rightarrow> None)"

text \<open>
  \<^verbatim>\<open>toISOString()\<close>: \<^verbatim>\<open>YYYY-MM-DDTHH:mm:ss.sssZ\<close> in UTC, the year with a sign and six
  digits outside 0 to 9999; a \<^verbatim>\<open>RangeError\<close> for an invalid date.
\<close>

definition decDigit :: "nat \<Rightarrow> char" where
  "decDigit d = ''0123456789'' ! d"

fun toString10 :: "nat \<Rightarrow> string" where
  "toString10 n =
     (if n < 10 then [decDigit n] else toString10 (n div 10) @ [decDigit (n mod 10)])"

declare toString10.simps [simp del]

definition digits :: "nat \<Rightarrow> int \<Rightarrow> string" where
  "digits w n = padStart w ''0'' (toString10 (nat n))"

definition isoYear :: "int \<Rightarrow> string" where
  "isoYear y =
     (if 0 \<le> y \<and> y \<le> 9999 then digits 4 y
      else (if y < 0 then ''-'' else ''+'') @ digits 6 \<bar>y\<bar>)"

definition isoDate :: "int \<Rightarrow> string" where
  "isoDate t =
     isoYear (YearFromTime t) @ ''-'' @ digits 2 (MonthFromTime t + 1) @ ''-'' @
     digits 2 (DateFromTime t)"

definition isoTime :: "int \<Rightarrow> string" where
  "isoTime t =
     digits 2 (HourFromTime t) @ '':'' @ digits 2 (MinFromTime t) @ '':'' @
     digits 2 (SecFromTime t) @ ''.'' @ digits 3 (msFromTime t)"

definition isoString :: "int \<Rightarrow> string" where
  "isoString tv = isoDate tv @ ''T'' @ isoTime tv @ ''Z''"

datatype js_error = RangeError

definition toISOString :: "Date \<Rightarrow> js_error + string" where
  "toISOString this = (case this of None \<Rightarrow> Inl RangeError | Some tv \<Rightarrow> Inr (isoString tv))"

subsection \<open>Period resolution\<close>

record DateRange =
  startISO :: string
  endISO :: string

text \<open>
  The \<^verbatim>\<open>return { startISO: start.toISOString(), endISO: end.toISOString() }\<close> of
  \<^verbatim>\<open>getDateRange\<close>; either call may throw.
\<close>

definition range_result :: "Date \<Rightarrow> Date \<Rightarrow> js_error + DateRange option" where
  "range_result start end_date =
     (case toISOString start of
        Inl e \<Rightarrow> Inl e
      | Inr s \<Rightarrow>
          (case toISOString end_date of
             Inl e \<Rightarrow> Inl e
           | Inr e \<Rightarrow> Inr (Some \<lparr>startISO = s, endISO = e\<rparr>)))"

text \<open>\<^verbatim>\<open>getDateRange(period, currentDate)\<close>; \<open>Inr None\<close> is \<^verbatim>\<open>null\<close>.\<close>

definition getDateRange :: "string \<Rightarrow> Date \<Rightarrow> js_error + DateRange option" where
  "getDateRange period currentDate =
     (let end_date = currentDate;
          start = currentDate
      in if period = ''24h'' then
           range_result (setHours1 start (map_option (\<lambda>h. h - 24) (getHours start))) end_date
         else if period = ''7d'' then
           range_result
             (setHours4 (setDate start (map_option (\<lambda>d. d - 7) (getDate start)))
                (Some 0) (Some 0) (Some 0) (Some 0)) end_date
         else if period = ''30d'' then
           range_result
             (setHours4 (setDate start (map_option (\<lambda>d. d - 30) (getDate start)))
                (Some 0) (Some 0) (Some 0) (Some 0)) end_date
         else if period = ''6month'' then
           range_result
             (setHours4 (setMonth start (map_option (\<lambda>m. m - 6) (getMonth start)))
                (Some 0) (Some 0) (Some 0) (Some 0)) end_date
         else if period = ''all'' then Inr None
         else Inr None)"

subsection \<open>Numbers\<close>

text \<open>
  A JavaScript number is an IEEE 754 binary64 value: NaN, an infinity, or a finite
  value, here the rational it stands for. The sign of zero is not modelled: every zero
  is \<^verbatim>\<open>+0\<close>, and no result below depends on it.

  \<open>roundToDouble q\<close> is the number nearest to the real \<open>q\<close>, ties to the even
  significand: \<open>floorLog2 a\<close> is the exponent of the power of two at or below \<open>a\<close>,
  \<open>ulp a\<close> the distance between the doubles around \<open>a\<close> (53 significant bits, the
  exponent not below that of the subnormals), \<open>nearest a\<close> the multiple of \<open>ulp a\<close>
  nearest to \<open>a\<close>, and a magnitude that rounds to \<open>2 ^ 1024\<close> or more is infinite.
\<close>

datatype number = NaN | Finite rat | PosInfinity | NegInfinity

definition floorLog2 :: "rat \<Rightarrow> int" where
  "floorLog2 a =
     (let (p, d) = quotient_of a; x = bitlen p - bitlen d
      in if 2 powi x \<le> a then x else x - 1)"

definition ulp :: "rat \<Rightarrow> rat" where
  "ulp a = 2 powi (max (floorLog2 a - 52) (- 1074))"

definition roundTiesToEven :: "rat \<Rightarrow> int" where
  "roundTiesToEven m =
     (let f = \<lfloor>m\<rfloor>; r = m - of_int f
      in if r < 1 / 2 then f else if 1 / 2 < r then f + 1 else if even f then f else f + 1)"

definition nearest :: "rat \<Rightarrow> rat" where
  "nearest a = of_int (roundTiesToEven (a / ulp a)) * ulp a"

definition roundToDouble :: "rat \<Rightarrow> number" where
  "roundToDouble q =
     (if q = 0 then Finite 0
      else
        (let v = nearest \<bar>q\<bar>
         in if 2 ^ 1024 \<le> v then (if 0 < q then PosInfinity else NegInfinity)
            else Finite (sgn q * v)))"

text \<open>\<^verbatim>\<open>isNaN(x)\<close>, \<^verbatim>\<open>x < y\<close>, \<^verbatim>\<open>x - y\<close>, \<^verbatim>\<open>x * y\<close>, \<^verbatim>\<open>x / y\<close> and \<^verbatim>\<open>Math.ceil(x)\<close> on numbers.\<close>

definition isNaN :: "number \<Rightarrow> bool" where
  "isNaN x = (x = NaN)"

fun js_less :: "number \<Rightarrow> number \<Rightarrow> bool" where
  "js_less (Finite a) (Finite b) = (a < b)"
| "js_less (Finite a) PosInfinity = True"
| "js_less NegInfinity (Finite b) = True"
| "js_less NegInfinity PosInfinity = True"
| "js_less _ _ = False"

fun js_sub :: "number \<Rightarrow> number \<Rightarrow> number" where
  "js_sub (Finite a) (Finite b) = roundToDouble (a - b)"
| "js_sub (Finite a) PosInfinity = NegInfinity"
| "js_sub (Finite a) NegInfinity = PosInfinity"
| "js_sub PosInfinity (Finite b) = PosInfinity"
| "js_sub PosInfinity NegInfinity = PosInfinity"
| "js_sub NegInfinity (Finite b) = NegInfinity"
| "js_sub NegInfinity PosInfinity = NegInfinity"
| "js_sub _ _ = NaN"

fun signum :: "number \<Rightarrow> int" where
  "signum (Finite a) = (if a = 0 then 0 else if 0 < a then 1 else - 1)"
| "signum PosInfinity = 1"
| "signum NegInfinity = - 1"
| "signum NaN = 0"

fun js_mul :: "number \<Rightarrow> number \<Rightarrow> number" where
  "js_mul (Finite a) (Finite b) = roundToDouble (a * b)"
| "js_mul NaN _ = NaN"
| "js_mul _ NaN = NaN"
| "js_mul x y =
     (if signum x * signum y = 0 then NaN
      else if 0 < signum x * signum y then PosInfinity
      else NegInfinity)"

fun js_div :: "number \<Rightarrow> number \<Rightarrow> number" where
  "js_div (Finite a) (Finite b) =
     (if b = 0 then (if a = 0 then NaN else if 0 < a then PosInfinity else NegInfinity)
      else roundToDouble (a / b))"
| "js_div NaN _ = NaN"
| "js_div _ NaN = NaN"
| "js_div (Finite a) _ = Finite 0"
| "js_div PosInfinity (Finite b) = (if 0 \<le> b then PosInfinity else NegInfinity)"
| "js_div NegInfinity (Finite b) = (if 0 \<le> b then NegInfinity else PosInfinity)"
| "js_div _ _ = NaN"

fun Math_ceil :: "number \<Rightarrow> number" where
  "Math_ceil (Finite a) = Finite (of_int \<lceil>a\<rceil>)"
| "Math_ceil x = x"

subsection \<open>Query parameters\<close>

text \<open>
  \<^verbatim>\<open>parseQueryParam(value, defaultValue, allowedValues)\<close>. A parameter is \<open>None\<close> when
  \<^verbatim>\<open>searchParams.get\<close> returns null; the empty string is falsy as well. \<open>allowedValues\<close> is
  \<open>None\<close> when the argument is left out.
\<close>

definition parseQueryParam :: "string option \<Rightarrow> string \<Rightarrow> string list option \<Rightarrow> string" where
  "parseQueryParam param defaultValue allowedValues =
     (case param of
        None \<Rightarrow> defaultValue
      | Some v \<Rightarrow>
          if v \<noteq> [] \<and> (case allowedValues of None \<Rightarrow> True | Some allowed \<Rightarrow> v \<in> set allowed)
          then v
          else defaultValue)"

text \<open>
  \<^verbatim>\<open>parseInt(string, 10)\<close> after ECMA-262: leading white space is skipped, then an
  optional sign, then the longest run of decimal digits is read; the result is NaN
  without a digit, and otherwise the number nearest to the integer the digits write
  (V8 rounds the exact integer, however many digits). White space is given by the UTF-8
  encodings of the code points of \<^verbatim>\<open>WhiteSpace\<close> and \<^verbatim>\<open>LineTerminator\<close>.
\<close>

definition StrWhiteSpaceChars :: "string list" where
  "StrWhiteSpaceChars =
     [[CHR 0x09], [CHR 0x0A], [CHR 0x0B], [CHR 0x0C], [CHR 0x0D], [CHR 0x20],
      [CHR 0xC2, CHR 0xA0],
      [CHR 0xE1, CHR 0x9A, CHR 0x80],
      [CHR 0xE2, CHR 0x80, CHR 0x80], [CHR 0xE2, CHR 0x80, CHR 0x81],
      [CHR 0xE2, CHR 0x80, CHR 0x82], [CHR 0xE2, CHR 0x80, CHR 0x83],
      [CHR 0xE2, CHR 0x80, CHR 0x84], [CHR 0xE2, CHR 0x80, CHR 0x85],
      [CHR 0xE2, CHR 0x80, CHR 0x86], [CHR 0xE2, CHR 0x80, CHR 0x87],
      [CHR 0xE2, CHR 0x80, CHR 0x88], [CHR 0xE2, CHR 0x80, CHR 0x89],
      [CHR 0xE2, CHR 0x80, CHR 0x8A],
      [CHR 0xE2, CHR 0x80, CHR 0xA8], [CHR 0xE2, CHR 0x80, CHR 0xA9],
      [CHR 0xE2, CHR 0x80, CHR 0xAF],
      [CHR 0xE2, CHR 0x81, CHR 0x9F],
      [CHR 0xE3, CHR 0x80, CHR 0x80],
      [CHR 0xEF, CHR 0xBB, CHR 0xBF]]"

text \<open>The number of bytes of the white space character a string starts with, or 0.\<close>

definition whiteSpacePrefix :: "string \<Rightarrow> nat" where
  "whiteSpacePrefix s =
     (case find (\<lambda>w. take (length w) s = w) StrWhiteSpaceChars of
        None \<Rightarrow> 0
      | Some w \<Rightarrow> length w)"

function trimStart :: "string \<Rightarrow> string" where
  "trimStart s =
     (if whiteSpacePrefix s = 0 then s else trimStart (drop (whiteSpacePrefix s) s))"
  by pat_completeness auto
termination
proof (relation "measure length")
  show "wf (measure length)" by simp
next
  fix s :: string
  assume pos: "whiteSpacePrefix s \<noteq> 0"
  then obtain w where "find (\<lambda>w. take (length w) s = w) StrWhiteSpaceChars = Some w"
    and w: "whiteSpacePrefix s = length w"
    by (auto simp add: whiteSpacePrefix_def split: option.splits)
  then have "take (length w) s = w" by (auto simp add: find_Some_iff)
  then have "length (take (length w) s) = length w" by simp
  then have "length w \<le> length s" by (simp add: min_def split: if_splits)
  moreover have "0 < length w" using pos w by simp
  ultimately have "length s - length w < length s" by linarith
  with w show "(drop (whiteSpacePrefix s) s, s) \<in> measure length"
    by simp
qed

declare trimStart.simps [simp del]

definition isDigit :: "char \<Rightarrow> bool" where
  "isDigit c = (48 \<le> (of_char c :: nat) \<and> (of_char c :: nat) \<le> 57)"

definition digitValue :: "char \<Rightarrow> int" where
  "digitValue c = int (of_char c) - 48"

definition mathInt :: "string \<Rightarrow> int" where
  "mathInt Z = foldl (\<lambda>n c. 10 * n + digitValue c) 0 Z"

definition parseInt10 :: "string \<Rightarrow> number" where
  "parseInt10 inputString =
     (let S = trimStart inputString;
          sign = (case S of c # _ \<Rightarrow> if c = CHR ''-'' then - 1 else 1 | [] \<Rightarrow> (1::int));
          S1 = (case S of c # cs \<Rightarrow> if c = CHR ''+'' \<or> c = CHR ''-'' then cs else S | [] \<Rightarrow> S);
          Z = takeWhile isDigit S1
      in if Z = [] then NaN
         else roundToDouble (of_int (sign * mathInt Z)))"

text \<open>
  \<^verbatim>\<open>s.toUpperCase()\<close> on the letters a to z; the handler applies it to \<^verbatim>\<open>asc\<close> and
  \<^verbatim>\<open>desc\<close> only.
\<close>

definition toUpperCase :: "string \<Rightarrow> string" where
  "toUpperCase s =
     map (\<lambda>c. if 97 \<le> (of_char c :: nat) \<and> (of_char c :: nat) \<le> 122
              then char_of ((of_char c :: nat) - 32) else c) s"

subsection \<open>Prepared statements and responses\<close>

text \<open>
  A prepared statement is its text and the values bound to its \<^verbatim>\<open>?\<close> placeholders. In
  the texts, each run of line breaks and tabs of the source's template literals is
  written as one space, and dropped at the two ends.
\<close>

datatype sql_value = Text string | Number number

record Statement =
  sql :: string
  bindings :: "sql_value list"

datatype 'a Http_Response =
    Plain_Response nat string
  | Json_Response 'a

subsection \<open>Events grouped by day\<close>

text \<open>
  \<^verbatim>\<open>case "/api/pings/grouped"\<close>, lines 357 to 397: the statement built from the two query
  parameters and the clock. \<open>Inl\<close> is the exception \<^verbatim>\<open>getDateRange\<close> may throw.
\<close>

definition grouped_statement :: "string option \<Rightarrow> string option \<Rightarrow> int \<Rightarrow> js_error + Statement" where
  "grouped_statement periodParam countTypeParam now =
     (let parsedPeriod =
            parseQueryParam periodParam ''30d'' (Some [''24h'', ''7d'', ''30d'', ''6month'', ''all'']);
          parsedCountType =
            parseQueryParam countTypeParam ''unique'' (Some [''unique'', ''total'']);
          selectCountSQL =
            (if parsedCountType = ''unique'' then ''COUNT(DISTINCT ip_hmac) as count''
             else ''COUNT(*) as count'');
          sqlQuery =
            ''SELECT strftime('%Y-%m-%d', ping_timestamp) as day, '' @ selectCountSQL @
            '' FROM ip_pings'';
          groupBy = '' GROUP BY strftime('%Y-%m-%d', ping_timestamp) ORDER BY day ASC;''
      in case getDateRange parsedPeriod (Some now) of
           Inl e \<Rightarrow> Inl e
         | Inr None \<Rightarrow> Inr \<lparr>sql = sqlQuery @ groupBy, bindings = []\<rparr>
         | Inr (Some dateRange) \<Rightarrow>
             Inr \<lparr>sql = sqlQuery @ '' WHERE ping_timestamp >= ? AND ping_timestamp <= ?'' @ groupBy,
                  bindings = [Text (startISO dateRange), Text (endISO dateRange)]\<rparr>)"

text \<open>
  The handler. \<open>d1_all\<close> is \<^verbatim>\<open>env.DB.prepare(sql).bind(...).all()\<close> on the current
  database: the rows, or \<open>None\<close> when it throws, which the handler answers with a 500.
\<close>

definition grouped_handler ::
  "(Statement \<Rightarrow> 'rows option) \<Rightarrow> string \<Rightarrow> string option \<Rightarrow> string option \<Rightarrow> int
     \<Rightarrow> js_error + 'rows Http_Response" where
  "grouped_handler d1_all httpMethod periodParam countTypeParam now =
     (if httpMethod \<noteq> ''GET'' then Inr (Plain_Response 405 ''Method Not Allowed'')
      else case grouped_statement periodParam countTypeParam now of
             Inl e \<Rightarrow> Inl e
           | Inr st \<Rightarrow>
               (case d1_all st of
                  None \<Rightarrow> Inr (Plain_Response 500 ''Error querying database'')
                | Some results \<Rightarrow> Inr (Json_Response results)))"

subsection \<open>Activity by visitor, paginated\<close>

text \<open>Lines 427 and 428: the page number.\<close>

definition resolve_page :: "string option \<Rightarrow> number" where
  "resolve_page pageParam =
     (let page = (case pageParam of
                    None \<Rightarrow> Finite 1
                  | Some s \<Rightarrow> if s = [] then Finite 1 else parseInt10 s)
      in if isNaN page \<or> js_less page (Finite 1) then Finite 1 else page)"

text \<open>Lines 430 to 432: the page size.\<close>

definition resolve_pageSize :: "string option \<Rightarrow> number" where
  "resolve_pageSize pageSizeParam =
     (let parsed = (case pageSizeParam of
                      None \<Rightarrow> Finite 10
                    | Some s \<Rightarrow> if s = [] then Finite 10 else parseInt10 s);
          defaulted = (if isNaN parsed \<or> js_less parsed (Finite 1) then Finite 10 else parsed)
      in if js_less (Finite 100) defaulted then Finite 100 else defaulted)"

text \<open>
  Lines 434 to 452: the sort column and order. \<^verbatim>\<open>validSortByColumns[sortBy]\<close> is a lookup
  in an object literal; a key it does not have gives \<^verbatim>\<open>undefined\<close>, which a template
  literal prints as that word.
\<close>

definition validSortByColumns :: "(string \<times> string) list" where
  "validSortByColumns = [(''first_seen'', ''first_seen''), (''total_pings'', ''total_pings'')]"

definition resolve_sortBy :: "string option \<Rightarrow> string" where
  "resolve_sortBy sortByParam =
     parseQueryParam sortByParam ''first_seen'' (Some [''first_seen'', ''total_pings''])"

definition resolve_sortOrder :: "string option \<Rightarrow> string" where
  "resolve_sortOrder sortOrderParam =
     parseQueryParam sortOrderParam ''desc'' (Some [''asc'', ''desc''])"

definition orderByColumn :: "string option \<Rightarrow> string" where
  "orderByColumn sortByParam =
     (case map_of validSortByColumns (resolve_sortBy sortByParam) of
        None \<Rightarrow> ''undefined''
      | Some column \<Rightarrow> column)"

text \<open>Line 445: the offset.\<close>

definition resolve_offset :: "string option \<Rightarrow> string option \<Rightarrow> number" where
  "resolve_offset pageParam pageSizeParam =
     js_mul (js_sub (resolve_page pageParam) (Finite 1)) (resolve_pageSize pageSizeParam)"

text \<open>Lines 455 to 473: the data statement, with the page size and the offset bound.\<close>

definition dataStatement ::
  "string option \<Rightarrow> string option \<Rightarrow> string option \<Rightarrow> string option \<Rightarrow> Statement" where
  "dataStatement pageParam pageSizeParam sortByParam sortOrderParam =
     (let pgSize = resolve_pageSize pageSizeParam;
          offset = resolve_offset pageParam pageSizeParam
      in \<lparr>sql =
            ''SELECT ip_hmac, MIN(ping_timestamp) as first_seen, MAX(ping_timestamp) as last_seen, '' @
            ''COUNT(ping_timestamp) as total_pings FROM ip_pings GROUP BY ip_hmac ORDER BY '' @
            orderByColumn sortByParam @ '' '' @ toUpperCase (resolve_sortOrder sortOrderParam) @
            '' LIMIT ? OFFSET ?;'',
          bindings = [Number pgSize, Number offset]\<rparr>)"

text \<open>
  What the storage answers. The data statement: one row for each identifier of the log
  with its first and last timestamp and its number of events, ordered by the named
  column in the named direction (ties in the order the model's stable sort leaves, which
  SQL does not fix), then \<open>offset\<close> rows skipped (none for a negative offset) and at most
  \<open>limit\<close> rows kept (all for a negative limit). A column or a direction the storage does
  not know makes the statement fail (\<open>None\<close>), and so does a limit or an offset that is
  not an integer of 64 bits: SQLite takes for them a value that converts to an integer
  without loss, and answers any other with an error.
\<close>

record UniqueActivityRecord =
  ip_hmac :: string
  first_seen :: int
  last_seen :: int
  total_pings :: int

definition activity_rows :: "D1Database \<Rightarrow> UniqueActivityRecord list" where
  "activity_rows db =
     map (\<lambda>h. \<lparr>ip_hmac = h,
                first_seen = Min (set (timestamps_of h db)),
                last_seen = Max (set (timestamps_of h db)),
                total_pings = int (length (timestamps_of h db))\<rparr>)
       (remdups (map fst (ip_pings db)))"

definition integer_value :: "number \<Rightarrow> int option" where
  "integer_value x =
     (case x of
        Finite a \<Rightarrow>
          if of_int \<lfloor>a\<rfloor> = a \<and> - (2 ^ 63) \<le> a \<and> a < 2 ^ 63 then Some \<lfloor>a\<rfloor> else None
      | _ \<Rightarrow> None)"

definition run_dataQuery ::
  "string \<Rightarrow> string \<Rightarrow> number \<Rightarrow> number \<Rightarrow> D1Database \<Rightarrow> UniqueActivityRecord list option" where
  "run_dataQuery column direction limit offset db =
     (let ordered =
            (if column = ''first_seen'' then Some (sort_key first_seen (activity_rows db))
             else if column = ''total_pings'' then Some (sort_key total_pings (activity_rows db))
             else None);
          directed =
            (if direction = ''ASC'' then ordered
             else if direction = ''DESC'' then map_option rev ordered
             else None)
      in case (directed, integer_value limit, integer_value offset) of
           (Some rows, Some l, Some off) \<Rightarrow>
             Some ((if l < 0 then (\<lambda>xs. xs) else take (nat l)) (drop (nat off) rows))
         | _ \<Rightarrow> None)"

text \<open>
  \<^verbatim>\<open>SELECT COUNT(*) as totalItems FROM (SELECT 1 FROM ip_pings GROUP BY ip_hmac)\<close>: the
  number of identifiers in the log, an integer of the storage.
\<close>

definition run_countQuery :: "D1Database \<Rightarrow> int" where
  "run_countQuery db = int (length (remdups (map fst (ip_pings db))))"

record PaginationInfo =
  totalItems :: number
  currentPage :: number
  pageSize :: number
  totalPages :: number

record UniqueActivityResponse =
  data :: "UniqueActivityRecord list"
  pagination :: PaginationInfo

text \<open>
  \<^verbatim>\<open>case "/api/pings/unique-activity"\<close>. The count reaches the handler as a number:
  the one nearest to the storage's integer.
\<close>

definition unique_activity_handler ::
  "string \<Rightarrow> string option \<Rightarrow> string option \<Rightarrow> string option \<Rightarrow> string option \<Rightarrow> D1Database
     \<Rightarrow> UniqueActivityResponse Http_Response" where
  "unique_activity_handler httpMethod pageParam pageSizeParam sortByParam sortOrderParam db =
     (if httpMethod \<noteq> ''GET'' then Plain_Response 405 ''Method Not Allowed''
      else
        (let page = resolve_page pageParam;
             pgSize = resolve_pageSize pageSizeParam;
             offset = resolve_offset pageParam pageSizeParam
         in case run_dataQuery (orderByColumn sortByParam)
                   (toUpperCase (resolve_sortOrder sortOrderParam)) pgSize offset db of
              None \<Rightarrow> Plain_Response 500 ''Error querying database''
            | Some dataResults \<Rightarrow>
                (let total = roundToDouble (of_int (run_countQuery db));
                     pages = Math_ceil (js_div total pgSize)
                 in Json_Response
                      \<lparr>data = dataResults,
                       pagination = \<lparr>totalItems = total, currentPage = page,
                                     pageSize = pgSize, totalPages = pages\<rparr>\<rparr>)))"

section \<open>Properties\<close>

lemma MIN_INTERVAL_value: "MIN_INTERVAL = 1800000"
  by (simp add: MIN_INTERVAL_def durationToMs_def)

lemma shouldRecordPing_iff:
  "shouldRecordPing (Some l) now = (now - l \<ge> MIN_INTERVAL)"
proof -
  have "((of_int (now - l) :: rat) / 1800000 \<ge> 1) = ((of_int (now - l) :: rat) \<ge> 1800000)"
    by (simp add: field_simps)
  also have "\<dots> = (now - l \<ge> 1800000)"
    by linarith
  finally show ?thesis
    by (simp add: shouldRecordPing_def MIN_INTERVAL_value durationToMs_def)
qed

subsection \<open>The identifier\<close>

lemma hexDigit_0: "hexDigit 0 = CHR ''0''"
  by (simp add: hexDigit_def)

lemma byte_hex_two_digits:
  assumes "n < 256"
  shows "padStart 2 ''0'' (toString16 n) = [hexDigit (n div 16), hexDigit (n mod 16)]"
proof (cases "n < 16")
  case True
  then show ?thesis
    by (simp add: toString16.simps[of n] padStart_def hexDigit_0)
next
  case False
  with assms have "n div 16 < 16" by simp
  then have "toString16 n = [hexDigit (n div 16), hexDigit (n mod 16)]"
    using False by (simp add: toString16.simps[of n] toString16.simps[of "n div 16"])
  then show ?thesis by (simp add: padStart_def)
qed

lemma unat_byte_less: "unat (b :: byte) < 256"
  using unsigned_less[of b] by simp

lemma hashHex_hex_encode_spec: "hashHex bs = hex_encode_spec bs"
  by (simp add: hashHex_def hex_encode_spec_def byte_hex_two_digits unat_byte_less)

lemma length_hashHex: "length (hashHex bs) = 2 * length bs"
  by (induction bs) (simp_all add: hashHex_hex_encode_spec hex_encode_spec_def)

text \<open>
  C3. The identifier the code produces is the hex encoding of the HMAC-SHA-256, keyed by
  the pepper, of the hex-encoded SHA-256 digest of the UTF-8 address, two hex digits for
  each byte of the code; and it is a function of the address and the pepper: equal
  inputs give equal identifiers.
\<close>

theorem generateDoubleHash_two_stage:
  "generateDoubleHash subtle ip secret = identifier_spec subtle ip secret
   \<and> length (generateDoubleHash subtle ip secret) =
       2 * length (sign_HMAC_SHA256 subtle (encode secret) (encode (generate256Hash subtle ip)))
   \<and> (ip' = ip \<and> secret' = secret \<longrightarrow>
        generateDoubleHash subtle ip' secret' = generateDoubleHash subtle ip secret)"
  by (simp add: generateDoubleHash_def generateHMAC256_def generate256Hash_def identifier_spec_def
      hashHex_hex_encode_spec length_hashHex[unfolded hashHex_hex_encode_spec])

theorem generateDoubleHash_two_stage_witness:
  "generateDoubleHash sample_subtle ''1.2.3.4'' ''p'' = ''703331''
   \<and> identifier_spec sample_subtle ''1.2.3.4'' ''p'' = ''703331''"
  using generateDoubleHash_two_stage
    [of sample_subtle "''1.2.3.4''" "''p''" "''1.2.3.4''" "''p''"]
  by (simp add: identifier_spec_def hex_encode_spec_def encode_def hexDigit_def sample_subtle_def)

subsection \<open>The registry\<close>

lemma upsertIp_fst:
  "fst (upsertIp subtle ip env) = generateDoubleHash subtle ip (IP_HASH_PEPPER env)"
  by (simp add: upsertIp_def Let_def)

lemma upsertIp_pings: "ip_pings (DB (snd (upsertIp subtle ip env))) = ip_pings (DB env)"
  by (simp add: upsertIp_def Let_def insert_ip_registry_def)

lemma upsertIp_registry:
  "ip_registry (DB (snd (upsertIp subtle ip env))) =
     (if generateDoubleHash subtle ip (IP_HASH_PEPPER env) \<in> set (ip_registry (DB env))
      then ip_registry (DB env)
      else ip_registry (DB env) @ [generateDoubleHash subtle ip (IP_HASH_PEPPER env)])"
  by (simp add: upsertIp_def Let_def insert_ip_registry_def)

lemma upsertIp_noop:
  "generateDoubleHash subtle ip (IP_HASH_PEPPER env) \<in> set (ip_registry (DB env)) \<Longrightarrow>
   snd (upsertIp subtle ip env) = env"
  by (simp add: upsertIp_def Let_def insert_ip_registry_def)

lemma upsertIp_registered:
  "generateDoubleHash subtle ip (IP_HASH_PEPPER env) \<in> set (ip_registry (DB (snd (upsertIp subtle ip env))))"
  by (simp add: upsertIp_registry)

lemma upsertIp_pepper: "IP_HASH_PEPPER (snd (upsertIp subtle ip env)) = IP_HASH_PEPPER env"
  by (simp add: upsertIp_def Let_def)

lemma upsertIp_twice:
  "snd (upsertIp subtle ip (snd (upsertIp subtle ip env))) = snd (upsertIp subtle ip env)"
  by (rule upsertIp_noop) (simp add: upsertIp_pepper upsertIp_registered)

lemma upsertIp_funpow:
  "0 < n \<Longrightarrow> ((\<lambda>e. snd (upsertIp subtle ip e)) ^^ n) env = snd (upsertIp subtle ip env)"
proof (induction n)
  case 0
  then show ?case by simp
next
  case (Suc n)
  then show ?case by (cases "n = 0") (simp_all add: upsertIp_twice)
qed

lemma count_list_append: "count_list (xs @ ys) x = count_list xs x + count_list ys x"
  by (induction xs) simp_all

lemma count_list_distinct: "distinct xs \<Longrightarrow> x \<in> set xs \<Longrightarrow> count_list xs x = 1"
  by (induction xs) (auto simp: count_list_0_iff)

lemma upsertIp_count:
  assumes "distinct (ip_registry (DB env))"
  shows "count_list (ip_registry (DB (snd (upsertIp subtle ip env))))
           (generateDoubleHash subtle ip (IP_HASH_PEPPER env)) = 1"
  using assms
  by (simp add: upsertIp_registry count_list_append count_list_distinct count_list_0_iff)

text \<open>
  C9. In a registry without duplicate identifiers, calling the upsert \<open>n \<ge> 1\<close> times with
  one address leaves exactly one row for its identifier: the first call appends a row
  if and only if none exists, every other call changes nothing, also when it comes
  from another address with the same identifier; and the call returns the identifier
  itself.
\<close>

theorem upsertIp_idempotent:
  assumes "distinct (ip_registry (DB env))"
  shows "fst (upsertIp subtle ip env) = generateDoubleHash subtle ip (IP_HASH_PEPPER env)
    \<and> ip_registry (DB (snd (upsertIp subtle ip env))) =
        (if generateDoubleHash subtle ip (IP_HASH_PEPPER env) \<in> set (ip_registry (DB env))
         then ip_registry (DB env)
         else ip_registry (DB env) @ [generateDoubleHash subtle ip (IP_HASH_PEPPER env)])
    \<and> (generateDoubleHash subtle ip (IP_HASH_PEPPER env) \<in> set (ip_registry (DB env)) \<longrightarrow>
         snd (upsertIp subtle ip env) = env)
    \<and> snd (upsertIp subtle ip (snd (upsertIp subtle ip env))) = snd (upsertIp subtle ip env)
    \<and> (0 < n \<longrightarrow>
         count_list (ip_registry (DB (((\<lambda>e. snd (upsertIp subtle ip e)) ^^ n) env)))
           (generateDoubleHash subtle ip (IP_HASH_PEPPER env)) = 1)
    \<and> distinct (ip_registry (DB (snd (upsertIp subtle ip env))))
    \<and> (generateDoubleHash subtle other (IP_HASH_PEPPER env) =
           generateDoubleHash subtle ip (IP_HASH_PEPPER env) \<longrightarrow>
         snd (upsertIp subtle other (snd (upsertIp subtle ip env))) = snd (upsertIp subtle ip env))"
proof -
  have other: "generateDoubleHash subtle other (IP_HASH_PEPPER env) =
           generateDoubleHash subtle ip (IP_HASH_PEPPER env) \<longrightarrow>
         snd (upsertIp subtle other (snd (upsertIp subtle ip env))) = snd (upsertIp subtle ip env)"
  proof
    assume "generateDoubleHash subtle other (IP_HASH_PEPPER env) =
           generateDoubleHash subtle ip (IP_HASH_PEPPER env)"
    then show "snd (upsertIp subtle other (snd (upsertIp subtle ip env))) =
        snd (upsertIp subtle ip env)"
      by (intro upsertIp_noop) (simp add: upsertIp_pepper upsertIp_registered)
  qed
  have dist: "distinct (ip_registry (DB (snd (upsertIp subtle ip env))))"
    using assms by (simp add: upsertIp_registry)
  have count: "0 < n \<longrightarrow>
         count_list (ip_registry (DB (((\<lambda>e. snd (upsertIp subtle ip e)) ^^ n) env)))
           (generateDoubleHash subtle ip (IP_HASH_PEPPER env)) = 1"
    using upsertIp_count[OF assms] by (simp add: upsertIp_funpow)
  have noop: "generateDoubleHash subtle ip (IP_HASH_PEPPER env) \<in> set (ip_registry (DB env)) \<longrightarrow>
         snd (upsertIp subtle ip env) = env"
    by (simp add: upsertIp_noop)
  show ?thesis
    by (intro conjI upsertIp_fst upsertIp_registry noop upsertIp_twice count dist other)
qed

theorem upsertIp_idempotent_witness:
  "distinct (ip_registry \<lparr>ip_registry = [''aa''], ip_pings = []\<rparr>)
   \<and> fst (upsertIp sample_subtle ''198.51.100.4''
         \<lparr>IP_HASH_PEPPER = ''pepper'', DB = \<lparr>ip_registry = [''aa''], ip_pings = []\<rparr>\<rparr>)
       = generateDoubleHash sample_subtle ''198.51.100.4'' ''pepper''
   \<and> (0::nat) < 2
   \<and> count_list
         (ip_registry (DB (((\<lambda>e. snd (upsertIp sample_subtle ''198.51.100.4'' e)) ^^ 2)
            \<lparr>IP_HASH_PEPPER = ''pepper'', DB = \<lparr>ip_registry = [''aa''], ip_pings = []\<rparr>\<rparr>)))
         (generateDoubleHash sample_subtle ''198.51.100.4'' ''pepper'') = 1
   \<and> distinct (ip_registry
         \<lparr>ip_registry = [generateDoubleHash sample_subtle ''198.51.100.4'' ''pepper''], ip_pings = []\<rparr>)
   \<and> generateDoubleHash sample_subtle ''198.51.100.4'' ''pepper''
         \<in> set (ip_registry
               \<lparr>ip_registry = [generateDoubleHash sample_subtle ''198.51.100.4'' ''pepper''],
                ip_pings = []\<rparr>)
   \<and> snd (upsertIp sample_subtle ''198.51.100.4''
         \<lparr>IP_HASH_PEPPER = ''pepper'',
          DB = \<lparr>ip_registry = [generateDoubleHash sample_subtle ''198.51.100.4'' ''pepper''],
                ip_pings = []\<rparr>\<rparr>)
       = \<lparr>IP_HASH_PEPPER = ''pepper'',
          DB = \<lparr>ip_registry = [generateDoubleHash sample_subtle ''198.51.100.4'' ''pepper''],
                ip_pings = []\<rparr>\<rparr>"
  using upsertIp_idempotent
    [of "\<lparr>IP_HASH_PEPPER = ''pepper'', DB = \<lparr>ip_registry = [''aa''], ip_pings = []\<rparr>\<rparr>"
        sample_subtle "''198.51.100.4''" 2 "''198.51.100.4''"]
    upsertIp_idempotent
    [of "\<lparr>IP_HASH_PEPPER = ''pepper'',
          DB = \<lparr>ip_registry = [generateDoubleHash sample_subtle ''198.51.100.4'' ''pepper''],
                ip_pings = []\<rparr>\<rparr>"
        sample_subtle "''198.51.100.4''" 2]
  by simp

subsection \<open>The throttle\<close>

lemma lastPingResult_timestamps_of:
  "lastPingResult db h =
     (if timestamps_of h db = [] then None else Some (Max (set (timestamps_of h db))))"
  by (simp add: lastPingResult_def timestamps_of_def Let_def)

lemma lastPingResult_upsertIp:
  "lastPingResult (DB (snd (upsertIp subtle ip env))) h = lastPingResult (DB env) h"
  by (simp add: lastPingResult_def upsertIp_pings)

lemma ping_handler_pings:
  "ip_pings (DB (snd (ping_handler subtle method ip now env))) =
     (case ip of
        None \<Rightarrow> ip_pings (DB env)
      | Some ipv \<Rightarrow>
          if method = ''POST'' \<and> ipv \<noteq> [] \<and>
             shouldRecordPing
               (lastPingResult (DB env) (generateDoubleHash subtle ipv (IP_HASH_PEPPER env))) now
          then ip_pings (DB env) @ [(generateDoubleHash subtle ipv (IP_HASH_PEPPER env), now)]
          else ip_pings (DB env))"
  by (simp add: ping_handler_def upsertIp_def Let_def insert_ip_registry_def insert_ip_pings_def
      lastPingResult_def split: option.splits)

lemma ping_handler_response:
  "ipv \<noteq> [] \<Longrightarrow>
   fst (ping_handler subtle ''POST'' (Some ipv) now env) =
     (if shouldRecordPing
           (lastPingResult (DB env) (generateDoubleHash subtle ipv (IP_HASH_PEPPER env))) now
      then Ping_Response 200 True ''Ping recorded successfully''
      else Ping_Response 200 False ''Ping not recorded - less than 30 minutes since last ping'')"
  by (simp add: ping_handler_def upsertIp_def Let_def insert_ip_registry_def lastPingResult_def)

lemma ping_handler_rejected_state:
  "ipv \<noteq> [] \<Longrightarrow>
   \<not> shouldRecordPing
       (lastPingResult (DB env) (generateDoubleHash subtle ipv (IP_HASH_PEPPER env))) now \<Longrightarrow>
   snd (ping_handler subtle ''POST'' (Some ipv) now env) = snd (upsertIp subtle ipv env)"
  by (simp add: ping_handler_def Let_def case_prod_beta upsertIp_fst lastPingResult_upsertIp)

text \<open>
  C1. For an identifier whose most recent recorded ping is at \<open>last\<close>: a ping at
  \<open>last + MIN_INTERVAL - eps\<close> with \<open>eps > 0\<close> is rejected and adds no event, a ping at
  \<open>last + MIN_INTERVAL\<close> is recorded (the comparison is inclusive), and the first ping of
  an identifier without events is recorded whatever the time.
\<close>

theorem throttle_boundary:
  assumes "ip \<noteq> []"
    and "h = generateDoubleHash subtle ip (IP_HASH_PEPPER env)"
  shows "(lastPingResult (DB env) h = Some lastT \<and> 0 < eps \<longrightarrow>
            fst (ping_handler subtle ''POST'' (Some ip) (lastT + MIN_INTERVAL - eps) env) =
              Ping_Response 200 False ''Ping not recorded - less than 30 minutes since last ping''
          \<and> ip_pings (DB (snd (ping_handler subtle ''POST'' (Some ip) (lastT + MIN_INTERVAL - eps) env))) =
              ip_pings (DB env))
       \<and> (lastPingResult (DB env) h = Some lastT \<longrightarrow>
            fst (ping_handler subtle ''POST'' (Some ip) (lastT + MIN_INTERVAL) env) =
              Ping_Response 200 True ''Ping recorded successfully''
          \<and> ip_pings (DB (snd (ping_handler subtle ''POST'' (Some ip) (lastT + MIN_INTERVAL) env))) =
              ip_pings (DB env) @ [(h, lastT + MIN_INTERVAL)])
       \<and> (lastPingResult (DB env) h = None \<longrightarrow>
            fst (ping_handler subtle ''POST'' (Some ip) now env) =
              Ping_Response 200 True ''Ping recorded successfully''
          \<and> ip_pings (DB (snd (ping_handler subtle ''POST'' (Some ip) now env))) =
              ip_pings (DB env) @ [(h, now)])"
proof -
  have none: "shouldRecordPing None now"
    by (simp add: shouldRecordPing_def)
  show ?thesis
    using assms none
    by (simp add: ping_handler_response ping_handler_pings shouldRecordPing_iff)
qed

theorem throttle_boundary_witness:
  "''203.0.113.7'' \<noteq> []
   \<and> lastPingResult
       \<lparr>ip_registry = [], ip_pings = [(generateDoubleHash sample_subtle ''203.0.113.7'' ''pepper'', 1000)]\<rparr>
       (generateDoubleHash sample_subtle ''203.0.113.7'' ''pepper'') = Some 1000
   \<and> (0::int) < 1
   \<and> fst (ping_handler sample_subtle ''POST'' (Some ''203.0.113.7'') (1000 + MIN_INTERVAL - 1)
        \<lparr>IP_HASH_PEPPER = ''pepper'',
         DB = \<lparr>ip_registry = [],
               ip_pings = [(generateDoubleHash sample_subtle ''203.0.113.7'' ''pepper'', 1000)]\<rparr>\<rparr>)
     = Ping_Response 200 False ''Ping not recorded - less than 30 minutes since last ping''
   \<and> fst (ping_handler sample_subtle ''POST'' (Some ''203.0.113.7'') (1000 + MIN_INTERVAL)
        \<lparr>IP_HASH_PEPPER = ''pepper'',
         DB = \<lparr>ip_registry = [],
               ip_pings = [(generateDoubleHash sample_subtle ''203.0.113.7'' ''pepper'', 1000)]\<rparr>\<rparr>)
     = Ping_Response 200 True ''Ping recorded successfully''
   \<and> lastPingResult \<lparr>ip_registry = [], ip_pings = []\<rparr>
       (generateDoubleHash sample_subtle ''203.0.113.7'' ''pepper'') = None
   \<and> fst (ping_handler sample_subtle ''POST'' (Some ''203.0.113.7'') 5
        \<lparr>IP_HASH_PEPPER = ''pepper'', DB = \<lparr>ip_registry = [], ip_pings = []\<rparr>\<rparr>)
     = Ping_Response 200 True ''Ping recorded successfully''"
  using throttle_boundary
    [of "''203.0.113.7''" "generateDoubleHash sample_subtle ''203.0.113.7'' ''pepper''" sample_subtle
        "\<lparr>IP_HASH_PEPPER = ''pepper'',
          DB = \<lparr>ip_registry = [],
                ip_pings = [(generateDoubleHash sample_subtle ''203.0.113.7'' ''pepper'', 1000)]\<rparr>\<rparr>"
        1000 1 5]
    throttle_boundary
    [of "''203.0.113.7''" "generateDoubleHash sample_subtle ''203.0.113.7'' ''pepper''" sample_subtle
        "\<lparr>IP_HASH_PEPPER = ''pepper'', DB = \<lparr>ip_registry = [], ip_pings = []\<rparr>\<rparr>"
        0 1 5]
  by (simp add: lastPingResult_def)

lemma ping_handler_registered:
  assumes "set (map fst (ip_pings (DB env))) \<subseteq> set (ip_registry (DB env))"
  shows "set (map fst (ip_pings (DB (snd (ping_handler subtle method ip now env)))))
           \<subseteq> set (ip_registry (DB (snd (ping_handler subtle method ip now env))))"
  using assms
  by (auto simp add: ping_handler_def upsertIp_def Let_def insert_ip_registry_def
      insert_ip_pings_def split: option.splits)

lemma ping_run_registered:
  "set (map fst (ip_pings (DB env))) \<subseteq> set (ip_registry (DB env)) \<Longrightarrow>
   set (map fst (ip_pings (DB (ping_run subtle reqs env))))
     \<subseteq> set (ip_registry (DB (ping_run subtle reqs env)))"
proof (induction reqs arbitrary: env)
  case Nil
  then show ?case by simp
next
  case (Cons r reqs)
  obtain meth ip now where r: "r = (meth, ip, now)" by (cases r) auto
  show ?case unfolding r ping_run.simps
    by (rule Cons.IH) (rule ping_handler_registered, rule Cons.prems)
qed

lemma lastPingResult_Some_event:
  "lastPingResult db h = Some l \<Longrightarrow> h \<in> set (map fst (ip_pings db))"
  by (auto simp add: lastPingResult_def Let_def filter_empty_conv split: if_splits)

text \<open>
  C8. When the throttle rejects a ping (the time since the identifier's last stored event
  is below \<open>MIN_INTERVAL\<close>), the caller gets status 200 with \<open>success: false\<close> and the
  reason, and the event log is exactly as before; where the identifiers of the log are
  registered (as they are after any run of the handlers) the whole database is as before.
\<close>

theorem rejected_ping_writes_nothing:
  assumes "ip \<noteq> []"
    and "lastPingResult (DB env) (generateDoubleHash subtle ip (IP_HASH_PEPPER env)) = Some lastT"
    and "now - lastT < MIN_INTERVAL"
  shows "fst (ping_handler subtle ''POST'' (Some ip) now env) =
           Ping_Response 200 False ''Ping not recorded - less than 30 minutes since last ping''
       \<and> ip_pings (DB (snd (ping_handler subtle ''POST'' (Some ip) now env))) = ip_pings (DB env)
       \<and> (set (map fst (ip_pings (DB env))) \<subseteq> set (ip_registry (DB env)) \<longrightarrow>
            snd (ping_handler subtle ''POST'' (Some ip) now env) = env)"
proof -
  let ?h = "generateDoubleHash subtle ip (IP_HASH_PEPPER env)"
  have rej: "\<not> shouldRecordPing (lastPingResult (DB env) ?h) now"
    using assms(2,3) by (simp add: shouldRecordPing_iff)
  have "?h \<in> set (map fst (ip_pings (DB env)))"
    using assms(2) by (rule lastPingResult_Some_event)
  then have "set (map fst (ip_pings (DB env))) \<subseteq> set (ip_registry (DB env)) \<Longrightarrow>
      snd (upsertIp subtle ip env) = env"
    by (intro upsertIp_noop) blast
  then show ?thesis
    using assms(1) rej
    by (simp add: ping_handler_response ping_handler_pings ping_handler_rejected_state
        upsertIp_pings)
qed

text \<open>
  The scenario of the specification: \<open>X\<close> pings at \<open>t0\<close> (here 2024-01-01T00:00:00Z) and
  again twenty minutes later; the second call is refused and the log holds one event.
\<close>

theorem rejected_ping_writes_nothing_witness:
  "''203.0.113.7'' \<noteq> []
   \<and> snd (ping_handler sample_subtle ''POST'' (Some ''203.0.113.7'') 1704067200000
        \<lparr>IP_HASH_PEPPER = ''pepper'', DB = \<lparr>ip_registry = [], ip_pings = []\<rparr>\<rparr>)
     = \<lparr>IP_HASH_PEPPER = ''pepper'',
        DB = \<lparr>ip_registry = [generateDoubleHash sample_subtle ''203.0.113.7'' ''pepper''],
              ip_pings = [(generateDoubleHash sample_subtle ''203.0.113.7'' ''pepper'', 1704067200000)]\<rparr>\<rparr>
   \<and> lastPingResult
        \<lparr>ip_registry = [generateDoubleHash sample_subtle ''203.0.113.7'' ''pepper''],
         ip_pings = [(generateDoubleHash sample_subtle ''203.0.113.7'' ''pepper'', 1704067200000)]\<rparr>
        (generateDoubleHash sample_subtle ''203.0.113.7'' ''pepper'') = Some 1704067200000
   \<and> (1704067200000 + durationToMs 20 minutes) - 1704067200000 < MIN_INTERVAL
   \<and> ping_handler sample_subtle ''POST'' (Some ''203.0.113.7'')
        (1704067200000 + durationToMs 20 minutes)
        \<lparr>IP_HASH_PEPPER = ''pepper'',
         DB = \<lparr>ip_registry = [generateDoubleHash sample_subtle ''203.0.113.7'' ''pepper''],
               ip_pings = [(generateDoubleHash sample_subtle ''203.0.113.7'' ''pepper'', 1704067200000)]\<rparr>\<rparr>
     = (Ping_Response 200 False ''Ping not recorded - less than 30 minutes since last ping'',
        \<lparr>IP_HASH_PEPPER = ''pepper'',
         DB = \<lparr>ip_registry = [generateDoubleHash sample_subtle ''203.0.113.7'' ''pepper''],
               ip_pings = [(generateDoubleHash sample_subtle ''203.0.113.7'' ''pepper'', 1704067200000)]\<rparr>\<rparr>)"
proof -
  have first: "snd (ping_handler sample_subtle ''POST'' (Some ''203.0.113.7'') 1704067200000
        \<lparr>IP_HASH_PEPPER = ''pepper'', DB = \<lparr>ip_registry = [], ip_pings = []\<rparr>\<rparr>)
     = \<lparr>IP_HASH_PEPPER = ''pepper'',
        DB = \<lparr>ip_registry = [generateDoubleHash sample_subtle ''203.0.113.7'' ''pepper''],
              ip_pings = [(generateDoubleHash sample_subtle ''203.0.113.7'' ''pepper'', 1704067200000)]\<rparr>\<rparr>"
    by (simp add: ping_handler_def upsertIp_def insert_ip_registry_def insert_ip_pings_def
        lastPingResult_def shouldRecordPing_def Let_def)
  show ?thesis
    using rejected_ping_writes_nothing
      [of "''203.0.113.7''"
          "\<lparr>IP_HASH_PEPPER = ''pepper'',
            DB = \<lparr>ip_registry = [generateDoubleHash sample_subtle ''203.0.113.7'' ''pepper''],
                  ip_pings = [(generateDoubleHash sample_subtle ''203.0.113.7'' ''pepper'', 1704067200000)]\<rparr>\<rparr>"
          sample_subtle 1704067200000 "1704067200000 + durationToMs 20 minutes"]
      first
    by (simp add: lastPingResult_def MIN_INTERVAL_value durationToMs_def prod_eq_iff)
qed

subsection \<open>The separation of stored events\<close>

lemma separated_append:
  "separated T (xs @ [x]) = (separated T xs \<and> (xs \<noteq> [] \<longrightarrow> x - last xs \<ge> T))"
  by (induction T xs rule: separated.induct) auto

lemma separated_Max:
  "0 \<le> T \<Longrightarrow> separated T xs \<Longrightarrow> xs \<noteq> [] \<Longrightarrow> Max (set xs) = last xs"
proof (induction T xs rule: separated.induct)
  case (3 T x y ys)
  then have "Max (set (y # ys)) = last (y # ys)" by simp
  moreover have "y \<le> Max (set (y # ys))" by simp
  ultimately show ?case using 3 by (simp add: max_def)
qed auto

lemma separated_sorted: "0 \<le> T \<Longrightarrow> separated T xs \<Longrightarrow> sorted xs"
proof (induction T xs rule: separated.induct)
  case (3 T x y ys)
  then have s: "sorted (y # ys)" and xy: "x \<le> y" by auto
  then have "\<forall>z \<in> set (y # ys). x \<le> z" by fastforce
  with s show ?case by simp
qed auto

lemma ping_handler_separated:
  assumes "\<And>h. separated MIN_INTERVAL (timestamps_of h (DB env))"
  shows "separated MIN_INTERVAL
           (timestamps_of h (DB (snd (ping_handler subtle method ip now env))))"
proof (cases ip)
  case None
  then show ?thesis using assms by (simp add: timestamps_of_def ping_handler_pings)
next
  case (Some ipv)
  let ?h = "generateDoubleHash subtle ipv (IP_HASH_PEPPER env)"
  let ?ts = "timestamps_of ?h (DB env)"
  show ?thesis
  proof (cases "method = ''POST'' \<and> ipv \<noteq> [] \<and> shouldRecordPing (lastPingResult (DB env) ?h) now")
    case False
    then show ?thesis using assms[of h] Some
      by (auto simp add: timestamps_of_def ping_handler_pings)
  next
    case True
    then have rec: "shouldRecordPing (lastPingResult (DB env) ?h) now" by simp
    have new: "timestamps_of h (DB (snd (ping_handler subtle method ip now env))) =
          timestamps_of h (DB env) @ (if h = ?h then [now] else [])"
      using True Some by (auto simp add: timestamps_of_def ping_handler_pings)
    show ?thesis
    proof (cases "h = ?h \<and> ?ts \<noteq> []")
      case False
      then show ?thesis using assms[of h] new by (auto simp: separated_append)
    next
      case True
      have sep: "separated MIN_INTERVAL ?ts" by (rule assms)
      have "Max (set ?ts) = last ?ts"
        using sep True by (intro separated_Max[of MIN_INTERVAL]) (simp_all add: MIN_INTERVAL_value)
      then have "lastPingResult (DB env) ?h = Some (last ?ts)"
        using True by (simp add: lastPingResult_timestamps_of)
      with rec have "now - last ?ts \<ge> MIN_INTERVAL"
        by (simp add: shouldRecordPing_iff)
      then show ?thesis using sep True new by (simp add: separated_append)
    qed
  qed
qed

lemma ping_run_separated:
  "(\<And>h. separated MIN_INTERVAL (timestamps_of h (DB env))) \<Longrightarrow>
   separated MIN_INTERVAL (timestamps_of h (DB (ping_run subtle reqs env)))"
proof (induction reqs arbitrary: env h)
  case Nil
  then show ?case by simp
next
  case (Cons r reqs)
  obtain meth ip now where r: "r = (meth, ip, now)" by (cases r) auto
  show ?case unfolding r ping_run.simps
    by (rule Cons.IH) (rule ping_handler_separated, rule Cons.prems)
qed

text \<open>
  C2. Starting from an empty event log, after any sequence of requests to the ping
  handler (any methods, addresses and clock readings, in any order) the stored events of
  every identifier, in the order they were written, are pairwise consecutive at a
  distance of at least \<open>MIN_INTERVAL\<close>, so they are also in time order. The table itself
  accepts any row (\<open>insert_ip_pings\<close> appends unconditionally): the separation comes from
  the handler's decision alone.
\<close>

theorem stored_pings_separated:
  assumes "ip_pings (DB env) = []"
  shows "separated MIN_INTERVAL (timestamps_of h (DB (ping_run subtle reqs env)))
       \<and> sorted (timestamps_of h (DB (ping_run subtle reqs env)))"
proof -
  have "separated MIN_INTERVAL (timestamps_of h (DB (ping_run subtle reqs env)))"
    by (rule ping_run_separated) (simp add: timestamps_of_def assms)
  then show ?thesis
    using separated_sorted[of MIN_INTERVAL] by (simp add: MIN_INTERVAL_value)
qed

theorem stored_pings_separated_witness:
  "ip_pings (DB \<lparr>IP_HASH_PEPPER = ''p'', DB = \<lparr>ip_registry = [], ip_pings = []\<rparr>\<rparr>) = []
   \<and> timestamps_of ''703331''
       (DB (ping_run sample_subtle
          [(''POST'', Some ''1.2.3.4'', 0), (''POST'', Some ''1.2.3.4'', 1200000),
           (''GET'', Some ''1.2.3.4'', 1800000), (''POST'', Some ''9.9.9.9'', 1800001),
           (''POST'', Some ''1.2.3.4'', 1800000), (''POST'', None, 3600000),
           (''POST'', Some ''1.2.3.4'', 3599999), (''POST'', Some ''1.2.3.4'', 3600000)]
          \<lparr>IP_HASH_PEPPER = ''p'', DB = \<lparr>ip_registry = [], ip_pings = []\<rparr>\<rparr>))
     = [0, 1800000, 3600000]
   \<and> separated MIN_INTERVAL [0, 1800000, 3600000]"
proof -
  have run: "timestamps_of ''703331''
       (DB (ping_run sample_subtle
          [(''POST'', Some ''1.2.3.4'', 0), (''POST'', Some ''1.2.3.4'', 1200000),
           (''GET'', Some ''1.2.3.4'', 1800000), (''POST'', Some ''9.9.9.9'', 1800001),
           (''POST'', Some ''1.2.3.4'', 1800000), (''POST'', None, 3600000),
           (''POST'', Some ''1.2.3.4'', 3599999), (''POST'', Some ''1.2.3.4'', 3600000)]
          \<lparr>IP_HASH_PEPPER = ''p'', DB = \<lparr>ip_registry = [], ip_pings = []\<rparr>\<rparr>))
     = [0, 1800000, 3600000]"
    by code_simp
  show ?thesis
    using stored_pings_separated
      [of "\<lparr>IP_HASH_PEPPER = ''p'', DB = \<lparr>ip_registry = [], ip_pings = []\<rparr>\<rparr>" "''703331''"
          sample_subtle
          "[(''POST'', Some ''1.2.3.4'', 0), (''POST'', Some ''1.2.3.4'', 1200000),
           (''GET'', Some ''1.2.3.4'', 1800000), (''POST'', Some ''9.9.9.9'', 1800001),
           (''POST'', Some ''1.2.3.4'', 1800000), (''POST'', None, 3600000),
           (''POST'', Some ''1.2.3.4'', 3599999), (''POST'', Some ''1.2.3.4'', 3600000)]"]
    unfolding run by simp
qed

subsection \<open>The calendar\<close>

lemma floor_div_bounds:
  fixes x n :: int
  assumes "0 < n"
  shows "n * (x div n) \<le> x" and "x < n * (x div n) + n"
proof -
  have "x = n * (x div n) + x mod n" by simp
  moreover have "0 \<le> x mod n" "x mod n < n" using assms by simp_all
  ultimately show "n * (x div n) \<le> x" and "x < n * (x div n) + n" by linarith+
qed

lemma div_succ:
  fixes x n :: int
  assumes "0 < n"
  shows "(x + 1) div n = x div n + (if (x + 1) mod n = 0 then 1 else 0)"
proof (cases "(x + 1) mod n = 0")
  case True
  then obtain k where k: "x + 1 = n * k" by (auto simp: mod_eq_0_iff_dvd)
  then have x: "x = (n - 1) + (k - 1) * n" by (simp add: algebra_simps)
  have "((n - 1) + (k - 1) * n) div n = k - 1"
    using assms by simp
  then have "x div n = k - 1" using x by simp
  then show ?thesis using True k assms by simp
next
  case False
  have m: "x + 1 = n * ((x + 1) div n) + (x + 1) mod n" by simp
  have "0 \<le> (x + 1) mod n" using assms by simp
  then have "0 < (x + 1) mod n" using False by linarith
  moreover have "(x + 1) mod n < n" using assms by simp
  ultimately have x: "x = ((x + 1) mod n - 1) + ((x + 1) div n) * n"
    and r: "0 \<le> (x + 1) mod n - 1" "(x + 1) mod n - 1 < n"
    using m by (simp_all add: algebra_simps)
  have "(((x + 1) mod n - 1) + ((x + 1) div n) * n) div n = (x + 1) div n"
    using r by simp
  then have "x div n = (x + 1) div n" using x by simp
  with False show ?thesis by simp
qed

lemma mod_shift: "(y - n * k) mod n = y mod (n::int)"
proof -
  have "(y - n * k) mod n = (y - (n * k) mod n) mod n"
    by (simp only: mod_diff_right_eq)
  then show ?thesis by simp
qed

lemma leap_shift:
  "(y - 1968) mod 4 = y mod (4::int)"
  "(y - 1900) mod 100 = y mod (100::int)"
  "(y - 1600) mod 400 = y mod (400::int)"
  using mod_shift[of y 4 492] mod_shift[of y 100 19] mod_shift[of y 400 4] by simp_all

lemma mod_100_4: "y mod 100 = 0 \<Longrightarrow> y mod 4 = (0::int)"
proof -
  assume "y mod 100 = 0"
  then have "100 dvd y" by (simp add: mod_eq_0_iff_dvd)
  moreover have "(4::int) dvd 100" by simp
  ultimately have "4 dvd y" by (rule dvd_trans[rotated])
  then show ?thesis by (simp add: mod_eq_0_iff_dvd)
qed

lemma mod_400_100: "y mod 400 = 0 \<Longrightarrow> y mod 100 = (0::int)"
proof -
  assume "y mod 400 = 0"
  then have "400 dvd y" by (simp add: mod_eq_0_iff_dvd)
  moreover have "(100::int) dvd 400" by simp
  ultimately have "100 dvd y" by (rule dvd_trans[rotated])
  then show ?thesis by (simp add: mod_eq_0_iff_dvd)
qed

lemma DayFromYear_step: "DayFromYear (y + 1) = DayFromYear y + DaysInYear y"
proof -
  have a: "(y - 1968) div 4 = (y - 1969) div 4 + (if y mod 4 = 0 then 1 else 0)"
    using div_succ[of 4 "y - 1969"] by (simp add: leap_shift)
  have b: "(y - 1900) div 100 = (y - 1901) div 100 + (if y mod 100 = 0 then 1 else 0)"
    using div_succ[of 100 "y - 1901"] by (simp add: leap_shift)
  have c: "(y - 1600) div 400 = (y - 1601) div 400 + (if y mod 400 = 0 then 1 else 0)"
    using div_succ[of 400 "y - 1601"] by (simp add: leap_shift)
  have "DayFromYear (y + 1) =
      365 * (y - 1969) + (y - 1968) div 4 - (y - 1900) div 100 + (y - 1600) div 400"
    by (simp add: DayFromYear_def)
  also have "\<dots> = DayFromYear y + DaysInYear y"
    unfolding a b c DayFromYear_def DaysInYear_def
    using mod_100_4[of y] mod_400_100[of y] by (simp split: if_splits)
  finally show ?thesis .
qed

lemma DaysInYear_cases: "DaysInYear y = 365 \<or> DaysInYear y = 366"
  by (simp add: DaysInYear_def)

lemma DayFromYear_strict: "y < y' \<Longrightarrow> DayFromYear y < DayFromYear y'"
proof -
  assume "y < y'"
  then have "y + 1 \<le> y'" by simp
  then show ?thesis
  proof (induction y' rule: int_ge_induct)
    case base
    show ?case using DayFromYear_step[of y] DaysInYear_cases[of y] by linarith
  next
    case (step i)
    then show ?case using DayFromYear_step[of i] DaysInYear_cases[of i] by linarith
  qed
qed

lemma DayFromYear_guess:
  "DayFromYear (1969 + (if d < 0 then d div 365 else d div 366)) \<le> d"
proof -
  define k where "k = (if d < 0 then d div 365 else d div 366)"
  define a where "a = (1969 + k - 1969) div 4"
  define b where "b = (1969 + k - 1901) div 100"
  define c where "c = (1969 + k - 1601) div 400"
  have a: "4 * a \<le> k"
    unfolding a_def using floor_div_bounds(1)[of 4 "1969 + k - 1969"] by simp
  have b: "k + 68 < 100 * b + 100"
    unfolding b_def using floor_div_bounds(2)[of 100 "1969 + k - 1901"] by simp
  have c: "400 * c \<le> k + 368"
    unfolding c_def using floor_div_bounds(1)[of 400 "1969 + k - 1601"] by simp
  have k: "(d < 0 \<and> 365 * k \<le> d \<and> k < 0) \<or> (0 \<le> d \<and> 366 * k \<le> d \<and> 0 \<le> k)"
  proof (cases "d < 0")
    case True
    then have "k = d div 365" by (simp add: k_def)
    moreover have "365 * (d div 365) \<le> d" using floor_div_bounds(1)[of 365 d] by simp
    moreover have "d div 365 < 0" using True by (simp add: div_neg_pos_less0)
    ultimately show ?thesis using True by simp
  next
    case False
    then have "k = d div 366" by (simp add: k_def)
    moreover have "366 * (d div 366) \<le> d" using floor_div_bounds(1)[of 366 d] by simp
    moreover have "0 \<le> d div 366" using False by (simp add: pos_imp_zdiv_nonneg_iff)
    ultimately show ?thesis using False by simp
  qed
  have "DayFromYear (1969 + k) = 365 * k - 365 + a - b + c"
    by (simp add: DayFromYear_def a_def b_def c_def)
  moreover have "365 * k - 365 + a - b + c \<le> d"
    using k
  proof (elim disjE conjE)
    assume "365 * k \<le> d" "k < 0"
    then show ?thesis using a b c by linarith
  next
    assume "366 * k \<le> d" "0 \<le> k"
    then show ?thesis using a b c by linarith
  qed
  ultimately show ?thesis by (simp add: k_def)
qed

lemma yearSearch_bounds:
  "DayFromYear y \<le> d \<Longrightarrow>
   DayFromYear (yearSearch d y) \<le> d \<and> d < DayFromYear (yearSearch d y + 1)"
proof (induction d y rule: yearSearch.induct)
  case (1 d y)
  show ?case
  proof (cases "DayFromYear (y + 1) \<le> d")
    case True
    then show ?thesis using 1 by (simp add: yearSearch.simps[of d y])
  next
    case False
    then show ?thesis using 1 by (simp add: yearSearch.simps[of d y])
  qed
qed

text \<open>\<open>YearFromDay d\<close> is the year whose days include day \<open>d\<close>, and the only one.\<close>

lemma YearFromDay_bounds:
  "DayFromYear (YearFromDay d) \<le> d" "d < DayFromYear (YearFromDay d + 1)"
  using yearSearch_bounds[OF DayFromYear_guess[of d]] by (simp_all add: YearFromDay_def)

lemma YearFromDay_unique:
  assumes "DayFromYear y \<le> d" "d < DayFromYear (y + 1)"
  shows "YearFromDay d = y"
proof (rule ccontr)
  assume neq: "YearFromDay d \<noteq> y"
  show False
  proof (cases "YearFromDay d < y")
    case True
    then have "YearFromDay d + 1 \<le> y" by simp
    then have "DayFromYear (YearFromDay d + 1) \<le> DayFromYear y"
      using DayFromYear_strict[of "YearFromDay d + 1" y] by (cases "YearFromDay d + 1 = y") auto
    then show False using YearFromDay_bounds(2)[of d] assms by linarith
  next
    case False
    then have "y + 1 \<le> YearFromDay d" using neq by simp
    then have "DayFromYear (y + 1) \<le> DayFromYear (YearFromDay d)"
      using DayFromYear_strict[of "y + 1" "YearFromDay d"] by (cases "y + 1 = YearFromDay d") auto
    then show False using YearFromDay_bounds(1)[of d] assms by linarith
  qed
qed


lemma TimeWithinDay_bounds: "0 \<le> TimeWithinDay t" "TimeWithinDay t < msPerDay"
  by (simp_all add: TimeWithinDay_def msPerDay_def)

lemma Day_TimeWithinDay: "msPerDay * Day t + TimeWithinDay t = t"
  by (simp add: Day_def TimeWithinDay_def)

lemma Day_unique: "0 \<le> r \<Longrightarrow> r < msPerDay \<Longrightarrow> Day (msPerDay * d + r) = d"
  by (simp add: Day_def msPerDay_def div_pos_pos_trivial)

lemma Day_midnight: "Day (msPerDay * d) = d"
  using Day_unique[of 0 d] by (simp add: msPerDay_def)

lemma Day_bounds: "msPerDay * Day t \<le> t" "t < msPerDay * Day t + msPerDay"
  using Day_TimeWithinDay[of t] TimeWithinDay_bounds[of t] by linarith+

lemma MonthFromTime_range: "0 \<le> MonthFromTime t" "MonthFromTime t \<le> 11"
  by (simp_all add: MonthFromTime_def Let_def)

lemma month_cases:
  fixes m :: int
  assumes "0 \<le> m" "m \<le> 11"
  obtains "m = 0" | "m = 1" | "m = 2" | "m = 3" | "m = 4" | "m = 5"
        | "m = 6" | "m = 7" | "m = 8" | "m = 9" | "m = 10" | "m = 11"
proof -
  have "m = 0 \<or> m = 1 \<or> m = 2 \<or> m = 3 \<or> m = 4 \<or> m = 5
      \<or> m = 6 \<or> m = 7 \<or> m = 8 \<or> m = 9 \<or> m = 10 \<or> m = 11"
    using assms by presburger
  then show thesis using that by blast
qed

lemma month_table_inverse:
  fixes d l :: int
  shows "DaysBeforeMonth
           (if d < 31 then 0 else if d < 59 + l then 1 else if d < 90 + l then 2
            else if d < 120 + l then 3 else if d < 151 + l then 4 else if d < 181 + l then 5
            else if d < 212 + l then 6 else if d < 243 + l then 7 else if d < 273 + l then 8
            else if d < 304 + l then 9 else if d < 334 + l then 10 else 11) l
         + (let m = (if d < 31 then 0 else if d < 59 + l then 1 else if d < 90 + l then 2
            else if d < 120 + l then 3 else if d < 151 + l then 4 else if d < 181 + l then 5
            else if d < 212 + l then 6 else if d < 243 + l then 7 else if d < 273 + l then 8
            else if d < 304 + l then 9 else if d < 334 + l then 10 else (11::int)) in
            if m = 0 then d + 1
            else if m = 1 then d - 30
            else if m = 2 then d - 58 - l
            else if m = 3 then d - 89 - l
            else if m = 4 then d - 119 - l
            else if m = 5 then d - 150 - l
            else if m = 6 then d - 180 - l
            else if m = 7 then d - 211 - l
            else if m = 8 then d - 242 - l
            else if m = 9 then d - 272 - l
            else if m = 10 then d - 303 - l
            else d - 333 - l)
         = d + 1"
  by (simp add: DaysBeforeMonth_def)

lemma DaysBeforeMonth_DateFromTime:
  "DaysBeforeMonth (MonthFromTime t) (InLeapYear t) + DateFromTime t = DayWithinYear t + 1"
  using month_table_inverse[of "DayWithinYear t" "InLeapYear t"]
  by (simp add: MonthFromTime_def DateFromTime_def Let_def)



text \<open>Setting the date within the current month moves the day by the difference.\<close>

lemma MakeDay_current_month:
  "MakeDay (YearFromTime t) (MonthFromTime t) dt = Day t - DateFromTime t + dt"
proof -
  have "MonthFromTime t div 12 = 0" "MonthFromTime t mod 12 = MonthFromTime t"
    using MonthFromTime_range[of t] by (simp_all add: div_pos_pos_trivial)
  then have "MakeDay (YearFromTime t) (MonthFromTime t) dt =
      DayFromYear (YearFromTime t) + DaysBeforeMonth (MonthFromTime t) (InLeapYear t) + dt - 1"
    by (simp add: MakeDay_def InLeapYear_def)
  then show ?thesis
    using DaysBeforeMonth_DateFromTime[of t] by (simp add: DayWithinYear_def)
qed

text \<open>
  The civil fields of a day made from a year, a month and a date of that month, at any
  time of that day.
\<close>

lemma MakeDay_fields:
  fixes ym mn D r l t :: int
  assumes mn: "0 \<le> mn" "mn \<le> 11" and D: "1 \<le> D" "D \<le> DaysInMonth mn l"
    and r: "0 \<le> r" "r < msPerDay"
    and l_def: "l = (if DaysInYear ym = 365 then 0 else 1)"
    and t_def: "t = msPerDay * (DayFromYear ym + DaysBeforeMonth mn l + D - 1) + r"
  shows "YearFromTime t = ym" and "MonthFromTime t = mn" and "DateFromTime t = D"
proof -
  define w where "w = DaysBeforeMonth mn l + D - 1"
  have l: "l = 0 \<or> l = 1" by (simp add: l_def)
  have diy: "DaysInYear ym = 365 + l"
    using DaysInYear_cases[of ym] by (auto simp add: l_def)
  have day: "Day t = DayFromYear ym + w"
    using Day_unique[OF r, of "DayFromYear ym + DaysBeforeMonth mn l + D - 1"]
    by (simp add: t_def w_def algebra_simps)
  have w: "0 \<le> w \<and> w < 365 + l"
    using mn
  proof (cases mn rule: month_cases)
    case 1 then show ?thesis using D l by (auto simp add: w_def DaysBeforeMonth_def DaysInMonth_def)
  next
    case 2 then show ?thesis using D l by (auto simp add: w_def DaysBeforeMonth_def DaysInMonth_def)
  next
    case 3 then show ?thesis using D l by (auto simp add: w_def DaysBeforeMonth_def DaysInMonth_def)
  next
    case 4 then show ?thesis using D l by (auto simp add: w_def DaysBeforeMonth_def DaysInMonth_def)
  next
    case 5 then show ?thesis using D l by (auto simp add: w_def DaysBeforeMonth_def DaysInMonth_def)
  next
    case 6 then show ?thesis using D l by (auto simp add: w_def DaysBeforeMonth_def DaysInMonth_def)
  next
    case 7 then show ?thesis using D l by (auto simp add: w_def DaysBeforeMonth_def DaysInMonth_def)
  next
    case 8 then show ?thesis using D l by (auto simp add: w_def DaysBeforeMonth_def DaysInMonth_def)
  next
    case 9 then show ?thesis using D l by (auto simp add: w_def DaysBeforeMonth_def DaysInMonth_def)
  next
    case 10 then show ?thesis using D l by (auto simp add: w_def DaysBeforeMonth_def DaysInMonth_def)
  next
    case 11 then show ?thesis using D l by (auto simp add: w_def DaysBeforeMonth_def DaysInMonth_def)
  next
    case 12 then show ?thesis using D l by (auto simp add: w_def DaysBeforeMonth_def DaysInMonth_def)
  qed
  have "DayFromYear ym \<le> Day t" "Day t < DayFromYear (ym + 1)"
    using w day diy DayFromYear_step[of ym] by simp_all
  then have "YearFromDay (Day t) = ym" by (rule YearFromDay_unique)
  then show year: "YearFromTime t = ym" by (simp add: YearFromTime_def)
  have dwy: "DayWithinYear t = w" using day year by (simp add: DayWithinYear_def)
  have leap: "InLeapYear t = l" using year by (simp add: InLeapYear_def l_def)
  show month: "MonthFromTime t = mn"
    using mn
  proof (cases mn rule: month_cases)
    case 1 then show ?thesis using D l
      by (auto simp add: MonthFromTime_def dwy leap w_def DaysBeforeMonth_def DaysInMonth_def)
  next
    case 2 then show ?thesis using D l
      by (auto simp add: MonthFromTime_def dwy leap w_def DaysBeforeMonth_def DaysInMonth_def)
  next
    case 3 then show ?thesis using D l
      by (auto simp add: MonthFromTime_def dwy leap w_def DaysBeforeMonth_def DaysInMonth_def)
  next
    case 4 then show ?thesis using D l
      by (auto simp add: MonthFromTime_def dwy leap w_def DaysBeforeMonth_def DaysInMonth_def)
  next
    case 5 then show ?thesis using D l
      by (auto simp add: MonthFromTime_def dwy leap w_def DaysBeforeMonth_def DaysInMonth_def)
  next
    case 6 then show ?thesis using D l
      by (auto simp add: MonthFromTime_def dwy leap w_def DaysBeforeMonth_def DaysInMonth_def)
  next
    case 7 then show ?thesis using D l
      by (auto simp add: MonthFromTime_def dwy leap w_def DaysBeforeMonth_def DaysInMonth_def)
  next
    case 8 then show ?thesis using D l
      by (auto simp add: MonthFromTime_def dwy leap w_def DaysBeforeMonth_def DaysInMonth_def)
  next
    case 9 then show ?thesis using D l
      by (auto simp add: MonthFromTime_def dwy leap w_def DaysBeforeMonth_def DaysInMonth_def)
  next
    case 10 then show ?thesis using D l
      by (auto simp add: MonthFromTime_def dwy leap w_def DaysBeforeMonth_def DaysInMonth_def)
  next
    case 11 then show ?thesis using D l
      by (auto simp add: MonthFromTime_def dwy leap w_def DaysBeforeMonth_def DaysInMonth_def)
  next
    case 12 then show ?thesis using D l
      by (auto simp add: MonthFromTime_def dwy leap w_def DaysBeforeMonth_def DaysInMonth_def)
  qed
  have "DaysBeforeMonth mn l + DateFromTime t = w + 1"
    using DaysBeforeMonth_DateFromTime[of t] by (simp add: month leap dwy)
  then show "DateFromTime t = D" by (simp add: w_def)
qed

text \<open>\<open>MakeDay\<close> computes what ECMA-262 asks it to find.\<close>

lemma MakeDay_finds:
  fixes year month :: int
  defines "ym \<equiv> year + month div 12"
  defines "mn \<equiv> month mod 12"
  defines "t \<equiv> msPerDay * MakeDay year month 1"
  shows "YearFromTime t = ym \<and> MonthFromTime t = mn \<and> DateFromTime t = 1
         \<and> MakeDay year month date = Day t + date - 1"
proof -
  define l where "l = (if DaysInYear ym = 365 then 0 else (1::int))"
  have t: "t = msPerDay * (DayFromYear ym + DaysBeforeMonth mn l + 1 - 1) + 0"
    by (simp add: t_def MakeDay_def ym_def mn_def l_def)
  have mn: "0 \<le> mn" "mn \<le> 11" by (simp_all add: mn_def)
  have one: "1 \<le> DaysInMonth mn l" by (simp add: DaysInMonth_def l_def)
  have z: "(0::int) \<le> 0" "(0::int) < msPerDay" by (simp_all add: msPerDay_def)
  have "YearFromTime t = ym" "MonthFromTime t = mn" "DateFromTime t = 1"
    using MakeDay_fields[OF mn _ one z(1) z(2) l_def t] by simp_all
  moreover have "Day t = MakeDay year month 1"
    by (simp add: t_def Day_midnight)
  moreover have "MakeDay year month date = MakeDay year month 1 + date - 1"
    by (simp add: MakeDay_def Let_def)
  ultimately show ?thesis by simp
qed


subsection \<open>The setters\<close>


lemma setHours4_midnight:
  "setHours4 (Some t) (Some 0) (Some 0) (Some 0) (Some 0) = TimeClip (msPerDay * Day t)"
  by (simp add: setHours4_def LocalTime_def UTC_def LocalTZA_def MakeDate_def MakeTime_def
      mult.commute)

lemma setDate_back:
  "setDate (Some t) (map_option (\<lambda>d. d - n) (getDate (Some t))) = TimeClip (t - n * msPerDay)"
proof -
  have "MakeDate (MakeDay (YearFromTime t) (MonthFromTime t) (DateFromTime t - n)) (TimeWithinDay t)
      = (Day t - n) * msPerDay + TimeWithinDay t"
    by (simp add: MakeDay_current_month MakeDate_def)
  also have "\<dots> = t - n * msPerDay"
    using Day_TimeWithinDay[of t] by (simp add: algebra_simps)
  finally show ?thesis
    by (simp add: setDate_def getDate_def LocalTime_def UTC_def LocalTZA_def)
qed


lemma Day_days_back: "Day (t - n * msPerDay) = Day t - n"
proof -
  have "t - n * msPerDay = msPerDay * (Day t - n) + TimeWithinDay t"
    using Day_TimeWithinDay[of t] by (simp add: algebra_simps)
  then show ?thesis
    using Day_unique[of "TimeWithinDay t" "Day t - n"] TimeWithinDay_bounds[of t] by simp
qed

lemma isoTime_midnight: "isoTime (msPerDay * d) = ''00:00:00.000''"
proof -
  have h: "msPerDay * d = (24 * d) * msPerHour" "msPerDay * d = (1440 * d) * msPerMinute"
    "msPerDay * d = (86400 * d) * msPerSecond"
    by (simp_all add: msPerDay_def msPerHour_def msPerMinute_def msPerSecond_def)
  have "HourFromTime (msPerDay * d) = 0"
    unfolding HourFromTime_def h(1) by (simp add: msPerHour_def)
  moreover have "MinFromTime (msPerDay * d) = 0"
    unfolding MinFromTime_def h(2) by (simp add: msPerMinute_def)
  moreover have "SecFromTime (msPerDay * d) = 0"
    unfolding SecFromTime_def h(3) by (simp add: msPerSecond_def)
  moreover have "msFromTime (msPerDay * d) = 0"
    unfolding msFromTime_def h(3) by (simp add: msPerSecond_def)
  ultimately show ?thesis
    by (simp add: isoTime_def digits_def padStart_def toString10.simps[of 0] decDigit_def
        eval_nat_numeral)
qed

lemma isoString_midnight: "isoString (msPerDay * d) = isoDate (msPerDay * d) @ ''T00:00:00.000Z''"
  by (simp add: isoString_def isoTime_midnight)

lemma TimeClip_valid:
  "- 8640000000000000 \<le> t \<Longrightarrow> t \<le> 8640000000000000 \<Longrightarrow> TimeClip t = Some t"
  by (simp add: TimeClip_def)

text \<open>The model on known dates, a leap day and dates before the epoch among them.\<close>

lemma isoString_known_dates:
  "isoString 0 = ''1970-01-01T00:00:00.000Z''"
  "isoString (- 1000) = ''1969-12-31T23:59:59.000Z''"
  "isoString 951818400000 = ''2000-02-29T10:00:00.000Z''"
  "isoString (- 2203891200000) = ''1900-03-01T00:00:00.000Z''"
  "isoString 1709251199999 = ''2024-02-29T23:59:59.999Z''"
  by code_simp+

subsection \<open>Period resolution\<close>

lemma range_result_valid:
  "range_result (Some s) (Some e) = Inr (Some \<lparr>startISO = isoString s, endISO = isoString e\<rparr>)"
  by (simp add: range_result_def toISOString_def)


lemma getDateRange_days:
  assumes "- 8640000000000000 \<le> now - (n + 1) * msPerDay" "now \<le> 8640000000000000" "0 \<le> n"
  shows "range_result
             (setHours4 (setDate (Some now) (map_option (\<lambda>d. d - n) (getDate (Some now))))
                (Some 0) (Some 0) (Some 0) (Some 0)) (Some now) =
           Inr (Some \<lparr>startISO = isoDate (msPerDay * (Day now - n)) @ ''T00:00:00.000Z'',
                      endISO = isoString now\<rparr>)"
proof -
  have n: "0 \<le> n * msPerDay" using assms(3) by (simp add: msPerDay_def)
  have mp: "0 < msPerDay" by (simp add: msPerDay_def)
  have d1: "(n + 1) * msPerDay = n * msPerDay + msPerDay" by (simp add: algebra_simps)
  have d2: "msPerDay * (Day now - n) = msPerDay * Day now - n * msPerDay"
    by (simp add: algebra_simps)
  have "TimeClip (now - n * msPerDay) = Some (now - n * msPerDay)"
    using assms(1,2) n mp unfolding d1 by (intro TimeClip_valid) linarith+
  then have 1: "setDate (Some now) (map_option (\<lambda>d. d - n) (getDate (Some now)))
      = Some (now - n * msPerDay)"
    by (simp add: setDate_back)
  have "TimeClip (msPerDay * (Day now - n)) = Some (msPerDay * (Day now - n))"
    using assms(1,2) n mp Day_bounds[of now] unfolding d1 d2
    by (intro TimeClip_valid) linarith+
  then show ?thesis
    by (simp add: 1 setHours4_midnight Day_days_back range_result_valid isoString_midnight)
qed






lemma six_months_back_carries_over:
  "getDateRange ''6month'' (Some 1725107696789) =
     Inr (Some \<lparr>startISO = ''2024-03-02T00:00:00.000Z'', endISO = ''2024-08-31T12:34:56.789Z''\<rparr>)"
  by code_simp

subsection \<open>Query parameters\<close>

lemma parseQueryParam_allowed:
  "parseQueryParam param d (Some allowed) =
     (case param of None \<Rightarrow> d | Some v \<Rightarrow> if v \<noteq> [] \<and> v \<in> set allowed then v else d)"
  by (simp add: parseQueryParam_def split: option.splits)

lemma parseQueryParam_default:
  "param \<notin> Some ` set allowed \<Longrightarrow> parseQueryParam param d (Some allowed) = d"
  by (auto simp add: parseQueryParam_allowed split: option.splits)

lemma range_result_not_null: "range_result s e \<noteq> Inr None"
  by (simp add: range_result_def split: sum.splits)

lemma getDateRange_30d_not_null: "getDateRange ''30d'' d \<noteq> Inr None"
  by (simp add: getDateRange_def range_result_not_null)

lemma grouped_statement_all:
  "\<exists>q. grouped_statement (Some ''all'') countTypeParam now = Inr \<lparr>sql = q, bindings = []\<rparr>"
  by (simp add: grouped_statement_def parseQueryParam_allowed getDateRange_def Let_def)

lemma grouped_statement_30d:
  "grouped_statement (Some ''30d'') countTypeParam now = Inl RangeError
   \<or> (\<exists>q s e. grouped_statement (Some ''30d'') countTypeParam now =
                Inr \<lparr>sql = q, bindings = [Text s, Text e]\<rparr>)"
proof (cases "getDateRange ''30d'' (Some now)")
  case (Inl e)
  then show ?thesis
    by (cases e) (simp add: grouped_statement_def parseQueryParam_allowed Let_def)
next
  case (Inr r)
  then obtain dr where "r = Some dr"
    using getDateRange_30d_not_null[of "Some now"] by (cases r) auto
  with Inr show ?thesis
    by (simp add: grouped_statement_def parseQueryParam_allowed Let_def)
qed

text \<open>
  C5. A \<^verbatim>\<open>period\<close> parameter that is not one of \<^verbatim>\<open>24h\<close>, \<^verbatim>\<open>7d\<close>, \<^verbatim>\<open>30d\<close>, \<^verbatim>\<open>6month\<close>,
  \<^verbatim>\<open>all\<close> (an absent or empty one included) is resolved to \<^verbatim>\<open>30d\<close> before the range is
  computed: the statement sent to the storage and the handler's answer are those of
  \<^verbatim>\<open>period=30d\<close>, and the statement is never the unbounded one of \<^verbatim>\<open>all\<close>.
\<close>

theorem unrecognized_period_is_default:
  assumes "periodParam \<notin> {Some ''24h'', Some ''7d'', Some ''30d'', Some ''6month'', Some ''all''}"
  shows "parseQueryParam periodParam ''30d'' (Some [''24h'', ''7d'', ''30d'', ''6month'', ''all'']) = ''30d''
       \<and> grouped_statement periodParam countTypeParam now =
           grouped_statement (Some ''30d'') countTypeParam now
       \<and> grouped_handler d1_all httpMethod periodParam countTypeParam now =
           grouped_handler d1_all httpMethod (Some ''30d'') countTypeParam now
       \<and> grouped_statement periodParam countTypeParam now \<noteq>
           grouped_statement (Some ''all'') countTypeParam now"
proof -
  have p: "parseQueryParam periodParam ''30d'' (Some [''24h'', ''7d'', ''30d'', ''6month'', ''all'']) = ''30d''"
    using assms by (intro parseQueryParam_default) auto
  have p30: "parseQueryParam (Some ''30d'') ''30d'' (Some [''24h'', ''7d'', ''30d'', ''6month'', ''all'']) = ''30d''"
    by (simp add: parseQueryParam_allowed)
  have s: "grouped_statement periodParam countTypeParam now =
           grouped_statement (Some ''30d'') countTypeParam now"
    unfolding grouped_statement_def p p30 ..
  have h: "grouped_handler d1_all httpMethod periodParam countTypeParam now =
           grouped_handler d1_all httpMethod (Some ''30d'') countTypeParam now"
    unfolding grouped_handler_def s ..
  have n: "grouped_statement (Some ''30d'') countTypeParam now \<noteq>
           grouped_statement (Some ''all'') countTypeParam now"
    using grouped_statement_all[of countTypeParam now] grouped_statement_30d[of countTypeParam now]
    by auto
  show ?thesis using p s h n by simp
qed

theorem unrecognized_period_is_default_witness:
  "Some ''bogus'' \<notin> {Some ''24h'', Some ''7d'', Some ''30d'', Some ''6month'', Some ''all''}
   \<and> parseQueryParam (Some ''bogus'') ''30d'' (Some [''24h'', ''7d'', ''30d'', ''6month'', ''all'']) = ''30d''
   \<and> grouped_handler (\<lambda>st. Some (bindings st)) ''GET'' (Some ''bogus'') None 1723725296789 =
       Inr (Json_Response [Text ''2024-07-16T00:00:00.000Z'', Text ''2024-08-15T12:34:56.789Z''])
   \<and> grouped_handler (\<lambda>st. Some (bindings st)) ''GET'' (Some ''all'') None 1723725296789 =
       Inr (Json_Response [])"
proof -
  have e: "isoString 1723725296789 = ''2024-08-15T12:34:56.789Z''"
    by code_simp
  have s: "isoDate (msPerDay * (Day 1723725296789 - 30)) = ''2024-07-16''"
    by code_simp
  have v: "- 8640000000000000 \<le> 1723725296789 - (30 + 1) * msPerDay"
    "(1723725296789::int) \<le> 8640000000000000" "(0::int) \<le> 30"
    by (simp_all add: msPerDay_def)
  have r: "getDateRange ''30d'' (Some 1723725296789) =
      Inr (Some \<lparr>startISO = ''2024-07-16T00:00:00.000Z'', endISO = ''2024-08-15T12:34:56.789Z''\<rparr>)"
    using getDateRange_days[OF v] by (simp add: getDateRange_def e s)
  have d: "grouped_handler (\<lambda>st. Some (bindings st)) ''GET'' (Some ''30d'') None 1723725296789 =
       Inr (Json_Response [Text ''2024-07-16T00:00:00.000Z'', Text ''2024-08-15T12:34:56.789Z''])"
    by (simp add: grouped_handler_def grouped_statement_def parseQueryParam_allowed r Let_def)
  have a: "grouped_handler (\<lambda>st. Some (bindings st)) ''GET'' (Some ''all'') None 1723725296789 =
       Inr (Json_Response [])"
    by (simp add: grouped_handler_def grouped_statement_def parseQueryParam_allowed
        getDateRange_def Let_def)
  have n: "Some ''bogus'' \<notin> {Some ''24h'', Some ''7d'', Some ''30d'', Some ''6month'', Some ''all''}"
    by simp
  show ?thesis
    using unrecognized_period_is_default[OF n, of None 1723725296789 "\<lambda>st. Some (bindings st)" "''GET''"]
      n d a
    by simp
qed

lemma resolve_sortBy_cases:
  "resolve_sortBy sortByParam =
     (if sortByParam = Some ''total_pings'' then ''total_pings'' else ''first_seen'')"
  by (auto simp add: resolve_sortBy_def parseQueryParam_allowed split: option.splits)

lemma resolve_sortOrder_cases:
  "resolve_sortOrder sortOrderParam = (if sortOrderParam = Some ''asc'' then ''asc'' else ''desc'')"
  by (auto simp add: resolve_sortOrder_def parseQueryParam_allowed split: option.splits)

lemma orderByColumn_cases:
  "orderByColumn sortByParam =
     (if sortByParam = Some ''total_pings'' then ''total_pings'' else ''first_seen'')"
  by (simp add: orderByColumn_def resolve_sortBy_cases validSortByColumns_def)

lemma toUpperCase_asc: "toUpperCase ''asc'' = ''ASC''"
  by code_simp

lemma toUpperCase_desc: "toUpperCase ''desc'' = ''DESC''"
  by code_simp

lemma direction_cases:
  "toUpperCase (resolve_sortOrder sortOrderParam) =
     (if sortOrderParam = Some ''asc'' then ''ASC'' else ''DESC'')"
  by (simp add: resolve_sortOrder_cases toUpperCase_asc toUpperCase_desc)

subsection \<open>Numbers\<close>

lemma powi_nat: "0 \<le> x \<Longrightarrow> (2::rat) powi x = 2 ^ nat x"
  by (simp add: power_int_def)

lemma powi_pos: "(0::rat) < 2 powi x"
  by (simp add: power_int_def)

lemma bitlen_rat_bounds:
  assumes "0 < p"
  shows "(2::rat) powi (bitlen p - 1) \<le> of_int p" "(of_int p :: rat) < 2 powi (bitlen p)"
proof -
  have b: "1 \<le> bitlen p" using assms bitlen_eq_zero_iff[of p] bitlen_nonneg[of p] by linarith
  have "(2::int) ^ nat (bitlen p - 1) \<le> p" "p < 2 ^ nat (bitlen p)"
    using bitlen_bounds[OF assms] by simp_all
  then have "(of_int ((2::int) ^ nat (bitlen p - 1)) :: rat) \<le> of_int p"
    "(of_int p :: rat) < of_int ((2::int) ^ nat (bitlen p))"
    by (simp_all only: of_int_le_iff of_int_less_iff)
  then show "(2::rat) powi (bitlen p - 1) \<le> of_int p" "(of_int p :: rat) < 2 powi (bitlen p)"
    using b by (simp_all add: powi_nat)
qed

lemma floorLog2_bounds:
  assumes "0 < a"
  shows "2 powi (floorLog2 a) \<le> a" "a < 2 powi (floorLog2 a + 1)"
proof -
  obtain p d where pd: "quotient_of a = (p, d)" by (cases "quotient_of a")
  have d: "0 < d" using pd by (rule quotient_of_denom_pos)
  have a: "a = of_int p / of_int d" using pd by (rule quotient_of_div)
  have p: "0 < p" using assms d a by (simp add: zero_less_divide_iff)
  define x where "x = bitlen p - bitlen d"
  note bp = bitlen_rat_bounds[OF p] and bd = bitlen_rat_bounds[OF d]
  have dr: "(0::rat) < of_int d" using d by simp
  have "a < 2 powi (bitlen p) / of_int d"
    unfolding a using bp(2) dr by (simp add: divide_strict_right_mono)
  also have "\<dots> \<le> 2 powi (bitlen p) / 2 powi (bitlen d - 1)"
    using bd(1) powi_pos[of "bitlen d - 1"] powi_pos[of "bitlen p"]
    by (intro frac_le) simp_all
  also have "\<dots> = 2 powi (x + 1)"
  proof -
    have "x + 1 = bitlen p - (bitlen d - 1)" by (simp add: x_def)
    then show ?thesis by (simp only: power_int_diff[of "2::rat", simplified])
  qed
  finally have up: "a < 2 powi (x + 1)" .
  have "x - 1 = (bitlen p - 1) - bitlen d" by (simp add: x_def)
  then have "(2::rat) powi (x - 1) = 2 powi (bitlen p - 1) / 2 powi (bitlen d)"
    by (simp only: power_int_diff[of "2::rat", simplified])
  also have "\<dots> \<le> of_int p / 2 powi (bitlen d)"
    using bp(1) powi_pos[of "bitlen d"] by (simp add: divide_right_mono)
  also have "\<dots> \<le> of_int p / of_int d"
    using bd(2) dr p by (intro frac_le) simp_all
  finally have lo: "2 powi (x - 1) \<le> a" by (simp add: a)
  have f: "floorLog2 a = (if 2 powi x \<le> a then x else x - 1)"
    by (simp add: floorLog2_def pd x_def Let_def)
  show "2 powi (floorLog2 a) \<le> a" using lo by (simp add: f)
  show "a < 2 powi (floorLog2 a + 1)" using up by (auto simp add: f not_le)
qed

lemma floorLog2_ge:
  assumes "2 powi k \<le> a"
  shows "k \<le> floorLog2 a"
proof -
  have a: "0 < a" using powi_pos[of k] assms by linarith
  have "(2::rat) powi k < 2 powi (floorLog2 a + 1)"
    using assms floorLog2_bounds(2)[OF a] by linarith
  then have "k < floorLog2 a + 1"
    by (metis linorder_not_le one_le_numeral power_int_increasing)
  then show ?thesis by simp
qed

lemma floorLog2_less:
  assumes "0 < a" "a < 2 powi k"
  shows "floorLog2 a < k"
proof -
  have "(2::rat) powi (floorLog2 a) < 2 powi k"
    using assms floorLog2_bounds(1)[OF assms(1)] by linarith
  then show ?thesis
    by (metis linorder_not_le one_le_numeral power_int_increasing)
qed

lemma roundTiesToEven_bounds:
  "\<bar>of_int (roundTiesToEven m) - m\<bar> \<le> 1 / 2"
  "\<lfloor>m\<rfloor> \<le> roundTiesToEven m"
proof -
  define f where "f = \<lfloor>m\<rfloor>"
  have r: "of_int f \<le> m" "m < of_int f + 1"
    unfolding f_def by linarith+
  have c: "roundTiesToEven m = f \<and> m - of_int f \<le> 1 / 2
      \<or> roundTiesToEven m = f + 1 \<and> 1 / 2 \<le> m - of_int f"
    by (auto simp add: roundTiesToEven_def Let_def f_def[symmetric])
  then show "\<bar>of_int (roundTiesToEven m) - m\<bar> \<le> 1 / 2"
  proof
    assume "roundTiesToEven m = f \<and> m - of_int f \<le> 1 / 2"
    then show ?thesis using r by (simp add: abs_if)
  next
    assume "roundTiesToEven m = f + 1 \<and> 1 / 2 \<le> m - of_int f"
    then show ?thesis using r by (simp add: abs_if)
  qed
  show "\<lfloor>m\<rfloor> \<le> roundTiesToEven m"
    by (simp add: roundTiesToEven_def Let_def)
qed

lemma roundTiesToEven_int: "m \<in> \<int> \<Longrightarrow> of_int (roundTiesToEven m) = m"
  by (auto simp add: roundTiesToEven_def Let_def elim!: Ints_cases)

lemma ulp_pos: "0 < ulp a"
  by (simp add: ulp_def powi_pos)

lemma nearest_error: "\<bar>nearest a - a\<bar> \<le> ulp a / 2"
proof -
  define m where "m = a / ulp a"
  have a: "a = m * ulp a" using ulp_pos[of a] by (simp add: m_def)
  have "nearest a - a = (of_int (roundTiesToEven m) - m) * ulp a"
    using a by (simp add: nearest_def m_def[symmetric] algebra_simps)
  then have "\<bar>nearest a - a\<bar> = \<bar>of_int (roundTiesToEven m) - m\<bar> * ulp a"
    using ulp_pos[of a] by (simp add: abs_mult)
  also have "\<dots> \<le> (1 / 2) * ulp a"
    using roundTiesToEven_bounds(1)[of m] ulp_pos[of a] by (intro mult_right_mono) simp_all
  finally show ?thesis by simp
qed

lemma nearest_nonneg: assumes "0 \<le> a" shows "0 \<le> nearest a"
proof -
  have "0 \<le> a / ulp a" using assms ulp_pos[of a] by simp
  then have "0 \<le> \<lfloor>a / ulp a\<rfloor>" by simp
  then have "0 \<le> roundTiesToEven (a / ulp a)"
    using roundTiesToEven_bounds(2)[of "a / ulp a"] by linarith
  then show ?thesis using ulp_pos[of a] by (simp add: nearest_def)
qed

lemma nearest_exact: assumes "a / ulp a \<in> \<int>" shows "nearest a = a"
  using ulp_pos[of a] by (simp add: nearest_def roundTiesToEven_int[OF assms])

lemma ulp_normal:
  assumes "2 powi (- 1022) \<le> a"
  shows "ulp a = 2 powi (floorLog2 a - 52)"
proof -
  have "- 1074 \<le> floorLog2 a - 52" using floorLog2_ge[OF assms] by linarith
  then have "max (floorLog2 a - 52) (- 1074) = floorLog2 a - 52" by (rule max_absorb1)
  then show ?thesis by (simp only: ulp_def)
qed

lemma ulp_times: 
  assumes "2 powi (- 1022) \<le> a"
  shows "ulp a * 2 ^ 52 = 2 powi (floorLog2 a)"
proof -
  have "(2::rat) powi (floorLog2 a - 52) = 2 powi (floorLog2 a) / 2 powi 52"
    by (simp only: power_int_diff[of "2::rat", simplified])
  then show ?thesis by (simp add: ulp_normal[OF assms])
qed

lemma ulp_le:
  assumes "2 powi (- 1022) \<le> a"
  shows "ulp a * 2 ^ 52 \<le> a"
proof -
  have a: "0 < a" using powi_pos[of "- 1022"] assms by linarith
  show ?thesis using floorLog2_bounds(1)[OF a] by (simp only: ulp_times[OF assms])
qed

lemma nearest_ge:
  assumes "2 powi (- 1022) \<le> a"
  shows "2 powi (floorLog2 a) \<le> nearest a"
proof -
  have "(2::rat) ^ 52 * ulp a \<le> a" using ulp_le[OF assms] by (simp add: mult.commute)
  then have "(2::rat) ^ 52 \<le> a / ulp a"
    using ulp_pos[of a] by (simp add: pos_le_divide_eq)
  then have "(of_int (2 ^ 52) :: rat) \<le> a / ulp a" by simp
  then have "(2::int) ^ 52 \<le> \<lfloor>a / ulp a\<rfloor>" by (simp only: le_floor_iff)
  then have "(2::int) ^ 52 \<le> roundTiesToEven (a / ulp a)"
    using roundTiesToEven_bounds(2)[of "a / ulp a"] by linarith
  then have "(of_int ((2::int) ^ 52) :: rat) \<le> of_int (roundTiesToEven (a / ulp a))"
    by (simp only: of_int_le_iff)
  then have "(2::rat) ^ 52 * ulp a \<le> of_int (roundTiesToEven (a / ulp a)) * ulp a"
    using ulp_pos[of a] by (intro mult_right_mono) simp_all
  then show ?thesis using ulp_times[OF assms] by (simp add: nearest_def mult.commute)
qed

lemma nearest_relative_error:
  assumes "2 powi (- 1022) \<le> a"
  shows "\<bar>nearest a - a\<bar> * 2 ^ 53 \<le> a"
proof -
  have "\<bar>nearest a - a\<bar> * 2 ^ 53 \<le> (ulp a / 2) * 2 ^ 53"
    using nearest_error[of a] by (intro mult_right_mono) simp_all
  also have "\<dots> = ulp a * 2 ^ 52" by simp
  finally show ?thesis using ulp_le[OF assms] by linarith
qed

lemma one_normal: "1 \<le> a \<Longrightarrow> (2::rat) powi (- 1022) \<le> a"
proof -
  assume "1 \<le> a"
  moreover have "(2::rat) powi (- 1022) \<le> 2 powi 0"
    by (intro power_int_increasing) simp_all
  ultimately show ?thesis by simp
qed

lemma floorLog2_nonneg: "1 \<le> a \<Longrightarrow> 0 \<le> floorLog2 a"
  using floorLog2_ge[of 0 a] by simp

text \<open>An integer rounds to an integer.\<close>

lemma nearest_of_int_Ints:
  assumes "0 < n"
  shows "nearest (of_int n) \<in> \<int>"
proof -
  define a :: rat where "a = of_int n"
  have a1: "1 \<le> a" using assms by (simp add: a_def)
  note norm = one_normal[OF a1]
  have e0: "0 \<le> floorLog2 a" using a1 by (rule floorLog2_nonneg)
  show ?thesis
  proof (cases "52 \<le> floorLog2 a")
    case True
    then have "ulp a = 2 ^ nat (floorLog2 a - 52)"
      by (simp add: ulp_normal[OF norm] powi_nat)
    then have "ulp a = of_int (2 ^ nat (floorLog2 a - 52))" by simp
    then have "ulp a \<in> \<int>" by (simp only: Ints_of_int)
    then show ?thesis by (simp add: nearest_def a_def[symmetric])
  next
    case False
    then have "0 \<le> 52 - floorLog2 a" by simp
    have "ulp a * 2 powi (52 - floorLog2 a) = 2 powi ((floorLog2 a - 52) + (52 - floorLog2 a))"
      by (simp only: ulp_normal[OF norm] power_int_add[of "2::rat", simplified])
    then have "ulp a * 2 powi (52 - floorLog2 a) = 1" by simp
    then have "ulp a * 2 ^ nat (52 - floorLog2 a) = 1" using False by (simp add: powi_nat)
    then have "a / ulp a = a * 2 ^ nat (52 - floorLog2 a)"
      using ulp_pos[of a] by (simp add: field_simps)
    also have "\<dots> = of_int (n * 2 ^ nat (52 - floorLog2 a))" by (simp add: a_def)
    finally have "a / ulp a \<in> \<int>" by (simp only: Ints_of_int)
    then have "nearest a = a" by (rule nearest_exact)
    then show ?thesis by (simp add: a_def)
  qed
qed

text \<open>The integers up to \<open>2 ^ 53\<close> are doubles.\<close>

lemma nearest_of_int_exact:
  assumes "0 < n" "n \<le> 2 ^ 53"
  shows "nearest (of_int n) = of_int n"
proof -
  define a :: rat where "a = of_int n"
  have a1: "1 \<le> a" using assms by (simp add: a_def)
  note norm = one_normal[OF a1]
  have a0: "0 < a" using a1 by simp
  have e0: "0 \<le> floorLog2 a" using a1 by (rule floorLog2_nonneg)
  have "(of_int n :: rat) \<le> of_int (2 ^ 53)" using assms(2) by (simp only: of_int_le_iff)
  then have le: "a \<le> 2 ^ 53" by (simp add: a_def)
  have "a < 2 powi 54" using le by simp
  then have e: "floorLog2 a \<le> 53" using floorLog2_less[OF a0, of 54] by simp
  have "a / ulp a \<in> \<int>"
  proof (cases "floorLog2 a = 53")
    case True
    have "(2::rat) powi 53 \<le> a" using floorLog2_bounds(1)[OF a0] by (simp add: True)
    then have "a = 2 ^ 53" using le by simp
    moreover have "ulp a = 2" by (simp add: ulp_normal[OF norm] True)
    ultimately have "a / ulp a = of_int (2 ^ 52)" by simp
    then show ?thesis by (simp only: Ints_of_int)
  next
    case False
    then have f: "0 \<le> 52 - floorLog2 a" using e by simp
    have "ulp a * 2 powi (52 - floorLog2 a) = 2 powi ((floorLog2 a - 52) + (52 - floorLog2 a))"
      by (simp only: ulp_normal[OF norm] power_int_add[of "2::rat", simplified])
    then have "ulp a * 2 powi (52 - floorLog2 a) = 1" by simp
    then have "ulp a * 2 ^ nat (52 - floorLog2 a) = 1" using f by (simp add: powi_nat)
    then have "a / ulp a = a * 2 ^ nat (52 - floorLog2 a)"
      using ulp_pos[of a] by (simp add: field_simps)
    also have "\<dots> = of_int (n * 2 ^ nat (52 - floorLog2 a))" by (simp add: a_def)
    finally show ?thesis by (simp only: Ints_of_int)
  qed
  then have "nearest a = a" by (rule nearest_exact)
  then show ?thesis by (simp add: a_def)
qed

lemma roundToDouble_pos:
  "0 < q \<Longrightarrow> roundToDouble q = (if 2 ^ 1024 \<le> nearest q then PosInfinity else Finite (nearest q))"
  by (simp add: roundToDouble_def Let_def)

lemma roundToDouble_neg:
  "q < 0 \<Longrightarrow> roundToDouble q =
     (if 2 ^ 1024 \<le> nearest (- q) then NegInfinity else Finite (- nearest (- q)))"
  by (simp add: roundToDouble_def Let_def)

lemma roundToDouble_exact:
  assumes "\<bar>n\<bar> \<le> 2 ^ 53"
  shows "roundToDouble (of_int n) = Finite (of_int n)"
proof -
  have big: "(of_int k :: rat) < 2 ^ 1024" if "k \<le> 2 ^ 53" for k :: int
  proof -
    have "(of_int k :: rat) \<le> of_int (2 ^ 53)" using that by (simp only: of_int_le_iff)
    also have "\<dots> < 2 ^ 1024" by simp
    finally show ?thesis .
  qed
  consider "n = 0" | "0 < n" | "n < 0" by linarith
  then show ?thesis
  proof cases
    case 1 then show ?thesis by (simp add: roundToDouble_def)
  next
    case 2
    then have "nearest (of_int n) = of_int n" using assms by (intro nearest_of_int_exact) simp_all
    then show ?thesis using 2 big[of n] assms by (simp add: roundToDouble_pos)
  next
    case 3
    then have "nearest (of_int (- n)) = of_int (- n)"
      using assms by (intro nearest_of_int_exact) simp_all
    then have "nearest (- of_int n) = - of_int n" by simp
    then show ?thesis using 3 big[of "- n"] assms by (simp add: roundToDouble_neg)
  qed
qed

text \<open>A positive integer rounds to itself up to \<open>2 ^ 53\<close>, and to an integer not below \<open>2 ^ 53\<close> beyond.\<close>

lemma roundToDouble_of_int_pos:
  assumes "1 \<le> n"
  shows "roundToDouble (of_int n) = PosInfinity \<or>
         (\<exists>k. roundToDouble (of_int n) = Finite (of_int k) \<and> 1 \<le> k
              \<and> (n \<le> 2 ^ 53 \<longrightarrow> k = n) \<and> (2 ^ 53 \<le> n \<longrightarrow> 2 ^ 53 \<le> k))"
proof (cases "n \<le> 2 ^ 53")
  case True
  have "\<bar>n\<bar> \<le> 2 ^ 53" using assms True by simp
  then have "roundToDouble (of_int n) = Finite (of_int n)"
    by (rule roundToDouble_exact)
  then show ?thesis using assms True by auto
next
  case False
  define a :: rat where "a = of_int n"
  have n0: "0 < n" using assms by simp
  have a0: "0 < a" using n0 by (simp add: a_def)
  have a1: "1 \<le> a" using assms by (simp add: a_def)
  obtain k where k: "nearest a = of_int k"
    using nearest_of_int_Ints[OF n0] by (auto simp add: a_def elim: Ints_cases)
  have "(2::int) ^ 53 \<le> n" using False by simp
  then have "(of_int (2 ^ 53) :: rat) \<le> of_int n" by (simp only: of_int_le_iff)
  then have "(2::rat) powi 53 \<le> a" by (simp add: a_def)
  then have "53 \<le> floorLog2 a" by (rule floorLog2_ge)
  then have "(2::rat) powi 53 \<le> 2 powi (floorLog2 a)"
    by (intro power_int_increasing) simp_all
  also have "\<dots> \<le> nearest a" using one_normal[OF a1] by (rule nearest_ge)
  finally have "(of_int (2 ^ 53) :: rat) \<le> of_int k" by (simp add: k)
  then have k53: "(2::int) ^ 53 \<le> k" by (simp only: of_int_le_iff)
  have "roundToDouble a = (if 2 ^ 1024 \<le> nearest a then PosInfinity else Finite (of_int k))"
    using roundToDouble_pos[OF a0] by (simp add: k)
  then have "roundToDouble a = PosInfinity \<or> roundToDouble a = Finite (of_int k)"
    by (simp split: if_splits)
  then show ?thesis using k53 False by (auto simp add: a_def)
qed

lemma roundToDouble_nonpos:
  assumes "q \<le> 0"
  shows "js_less (roundToDouble q) (Finite 1)"
proof (cases "q = 0")
  case True then show ?thesis by (simp add: roundToDouble_def)
next
  case False
  then have q: "q < 0" using assms by simp
  have "0 \<le> nearest (- q)" using q by (intro nearest_nonneg) simp
  then show ?thesis by (simp add: roundToDouble_neg[OF q])
qed

lemma floorLog2_unique:
  assumes "2 powi e \<le> a" "a < 2 powi (e + 1)"
  shows "floorLog2 a = e"
proof -
  have a: "0 < a" using powi_pos[of e] assms(1) by linarith
  have "e \<le> floorLog2 a" using assms(1) by (rule floorLog2_ge)
  moreover have "floorLog2 a < e + 1" using a assms(2) by (rule floorLog2_less)
  ultimately show ?thesis by simp
qed

lemma roundTiesToEven_unique:
  assumes "\<bar>m - of_int n\<bar> * 2 < 1"
  shows "roundTiesToEven m = n"
proof -
  define x :: rat where "x = of_int (roundTiesToEven m)"
  define y :: rat where "y = of_int n"
  define a where "a = \<bar>x - m\<bar>"
  define b where "b = \<bar>m - y\<bar>"
  define c where "c = \<bar>x - y\<bar>"
  have "a \<le> 1 / 2" unfolding a_def x_def by (rule roundTiesToEven_bounds(1))
  moreover have "b * 2 < 1" using assms by (simp add: b_def y_def)
  moreover have "c \<le> a + b" unfolding a_def b_def c_def by simp
  ultimately have "c < 1" by linarith
  then have "\<bar>x - y\<bar> < 1" by (simp only: c_def)
  then have "\<bar>(of_int (roundTiesToEven m) :: rat) - of_int n\<bar> < 1" by (simp add: x_def y_def)
  then have "\<bar>(of_int (roundTiesToEven m - n) :: rat)\<bar> < of_int 1" by simp
  then have "\<bar>roundTiesToEven m - n\<bar> < 1" by (simp only: of_int_abs[symmetric] of_int_less_iff)
  then show ?thesis by simp
qed

text \<open>A number is the double nearest to what is less than half a unit away from it.\<close>

lemma roundToDouble_near:
  assumes "2 powi e \<le> q" "q < 2 powi (e + 1)" "- 1022 \<le> e"
    and "\<bar>q - of_int n * 2 powi (e - 52)\<bar> * 2 < 2 powi (e - 52)"
    and "of_int n * 2 powi (e - 52) < (2::rat) ^ 1024"
  shows "roundToDouble q = Finite (of_int n * 2 powi (e - 52))"
proof -
  define u :: rat where "u = 2 powi (e - 52)"
  have u: "0 < u" by (simp add: u_def powi_pos)
  have q: "0 < q" using powi_pos[of e] assms(1) by linarith
  have f: "floorLog2 q = e" using assms(1,2) by (rule floorLog2_unique)
  have "max (e - 52) (- 1074) = e - 52" using assms(3) by simp
  then have ulp: "ulp q = u" by (simp only: ulp_def f u_def)
  have "q / u - of_int n = (q - of_int n * u) / u" using u by (simp add: field_simps)
  then have "\<bar>q / u - of_int n\<bar> * 2 = (\<bar>q - of_int n * u\<bar> * 2) / u"
    using u by (simp add: abs_divide)
  also have "\<dots> < 1" using assms(4) u by (simp add: u_def[symmetric])
  finally have "roundTiesToEven (q / u) = n" by (rule roundTiesToEven_unique)
  then have "nearest q = of_int n * u" by (simp add: nearest_def ulp)
  then show ?thesis using assms(5) by (simp add: roundToDouble_pos[OF q] u_def)
qed

text \<open>Rounding does not go below a power of two.\<close>

lemma roundToDouble_of_int_ge:
  assumes "2 ^ j \<le> n"
  shows "roundToDouble (of_int n) = PosInfinity
         \<or> (\<exists>k. 2 ^ j \<le> k \<and> roundToDouble (of_int n) = Finite (of_int k))"
proof -
  define a :: rat where "a = of_int n"
  have "(1::int) \<le> 2 ^ j" by simp
  then have n1: "1 \<le> n" using assms by (rule order_trans)
  then have n0: "0 < n" by simp
  have a0: "0 < a" using n0 by (simp add: a_def)
  have a1: "1 \<le> a" using n1 by (simp add: a_def)
  obtain k where k: "nearest a = of_int k"
    using nearest_of_int_Ints[OF n0] by (auto simp add: a_def elim: Ints_cases)
  have "(of_int (2 ^ j) :: rat) \<le> of_int n" using assms by (simp only: of_int_le_iff)
  then have "(2::rat) powi (int j) \<le> a" by (simp add: a_def)
  then have "int j \<le> floorLog2 a" by (rule floorLog2_ge)
  then have "(2::rat) powi (int j) \<le> 2 powi (floorLog2 a)"
    by (intro power_int_increasing) simp_all
  also have "\<dots> \<le> nearest a" using one_normal[OF a1] by (rule nearest_ge)
  finally have "(of_int (2 ^ j) :: rat) \<le> of_int k" by (simp add: k)
  then have kj: "(2::int) ^ j \<le> k" by (simp only: of_int_le_iff)
  have "roundToDouble a = (if 2 ^ 1024 \<le> nearest a then PosInfinity else Finite (of_int k))"
    using roundToDouble_pos[OF a0] by (simp add: k)
  then have "roundToDouble a = PosInfinity \<or> roundToDouble a = Finite (of_int k)"
    by (simp split: if_splits)
  then show ?thesis using kj by (auto simp add: a_def)
qed

subsection \<open>Pagination\<close>

lemma trimStart_empty: "trimStart [] = []"
  by (simp add: trimStart.simps[of "[]"] whiteSpacePrefix_def StrWhiteSpaceChars_def)

lemma parseInt10_empty: "parseInt10 [] = NaN"
  by (simp add: parseInt10_def trimStart_empty)

text \<open>What \<^verbatim>\<open>parseInt\<close> returns: NaN, a number below 1, or an integer from 1 or infinity.\<close>

lemma parseInt10_cases:
  "parseInt10 s = NaN \<or> js_less (parseInt10 s) (Finite 1) \<or> parseInt10 s = PosInfinity
   \<or> (\<exists>k. 1 \<le> k \<and> parseInt10 s = Finite (of_int k))"
proof -
  define S where "S = trimStart s"
  define sign where "sign = (case S of c # _ \<Rightarrow> if c = CHR ''-'' then - 1 else 1 | [] \<Rightarrow> (1::int))"
  define Z where "Z = takeWhile isDigit
    (case S of c # cs \<Rightarrow> if c = CHR ''+'' \<or> c = CHR ''-'' then cs else S | [] \<Rightarrow> S)"
  define m where "m = sign * mathInt Z"
  have "parseInt10 s = (if Z = [] then NaN else roundToDouble (of_int m))"
    unfolding parseInt10_def Let_def S_def sign_def Z_def m_def by (rule refl)
  then have "parseInt10 s = NaN \<or> parseInt10 s = roundToDouble (of_int m)"
    by (simp split: if_splits)
  then show ?thesis
  proof
    assume "parseInt10 s = NaN" then show ?thesis by simp
  next
    assume p: "parseInt10 s = roundToDouble (of_int m)"
    show ?thesis
    proof (cases "1 \<le> m")
      case True
      then show ?thesis using roundToDouble_of_int_pos[OF True] p by auto
    next
      case False
      then have "(of_int m :: rat) \<le> 0" by simp
      then show ?thesis using roundToDouble_nonpos p by simp
    qed
  qed
qed

lemma resolve_page_Some:
  "resolve_page (Some s) =
     (if isNaN (parseInt10 s) \<or> js_less (parseInt10 s) (Finite 1) then Finite 1 else parseInt10 s)"
  by (cases "s = []") (simp_all add: resolve_page_def parseInt10_empty isNaN_def)

lemma resolve_pageSize_Some:
  "resolve_pageSize (Some s) =
     (if isNaN (parseInt10 s) \<or> js_less (parseInt10 s) (Finite 1) then Finite 10
      else if js_less (Finite 100) (parseInt10 s) then Finite 100
      else parseInt10 s)"
  by (cases "s = []") (simp_all add: resolve_pageSize_def parseInt10_empty isNaN_def Let_def)

lemma resolve_page_cases:
  "resolve_page pageParam = PosInfinity
   \<or> (\<exists>k. 1 \<le> k \<and> resolve_page pageParam = Finite (of_int k))"
proof (cases pageParam)
  case None
  have "resolve_page None = Finite (of_int 1)" by (simp add: resolve_page_def isNaN_def)
  then show ?thesis using None by (intro disjI2 exI[of _ 1]) simp
next
  case (Some s)
  have one: "Finite 1 = Finite (of_int 1)" by simp
  show ?thesis
    using parseInt10_cases[of s] unfolding Some resolve_page_Some isNaN_def
    by (elim disjE exE conjE) (auto simp add: one simp del: of_int_1 intro: exI[of _ 1])
qed

lemma resolve_pageSize_cases:
  "\<exists>k. 1 \<le> k \<and> k \<le> 100 \<and> resolve_pageSize pageSizeParam = Finite (of_int k)"
proof (cases pageSizeParam)
  case None
  have "resolve_pageSize None = Finite (of_int 10)"
    by (simp add: resolve_pageSize_def isNaN_def)
  then show ?thesis using None by (intro exI[of _ 10]) simp
next
  case (Some s)
  have d: "Finite 10 = Finite (of_int 10)" and h: "Finite 100 = Finite (of_int 100)" by simp_all
  consider "parseInt10 s = NaN" | "js_less (parseInt10 s) (Finite 1)" | "parseInt10 s = PosInfinity"
    | k where "1 \<le> k" "parseInt10 s = Finite (of_int k)"
    using parseInt10_cases[of s] by blast
  then show ?thesis
  proof cases
    case 1 then show ?thesis unfolding Some resolve_pageSize_Some
      by (intro exI[of _ 10]) (simp add: isNaN_def)
  next
    case 2 then show ?thesis unfolding Some resolve_pageSize_Some
      by (intro exI[of _ 10]) (simp add: isNaN_def)
  next
    case 3 then show ?thesis unfolding Some resolve_pageSize_Some
      by (intro exI[of _ 100]) (simp add: isNaN_def)
  next
    case 4
    show ?thesis
    proof (cases "100 < k")
      case True then show ?thesis using 4 unfolding Some resolve_pageSize_Some
        by (intro exI[of _ 100]) (simp add: isNaN_def)
    next
      case False then show ?thesis using 4 unfolding Some resolve_pageSize_Some
        by (intro exI[of _ k]) (simp add: isNaN_def)
    qed
  qed
qed

text \<open>A string that starts with digits is read up to the first character that is no digit.\<close>

lemma StrWhiteSpaceChars_heads:
  "\<forall>w\<in>set StrWhiteSpaceChars. w \<noteq> [] \<and> \<not> isDigit (hd w)"
  by (simp add: StrWhiteSpaceChars_def isDigit_def)

lemma whiteSpacePrefix_digit:
  assumes "isDigit c"
  shows "whiteSpacePrefix (c # cs) = 0"
proof -
  have "\<not> (\<exists>w\<in>set StrWhiteSpaceChars. take (length w) (c # cs) = w)"
  proof
    assume "\<exists>w\<in>set StrWhiteSpaceChars. take (length w) (c # cs) = w"
    then obtain w where w: "w \<in> set StrWhiteSpaceChars" "take (length w) (c # cs) = w" by blast
    have h: "w \<noteq> []" "\<not> isDigit (hd w)"
      using StrWhiteSpaceChars_heads w(1) by auto
    obtain x xs where x: "w = x # xs" "\<not> isDigit x"
      using h by (cases w) auto
    then have "x = c" using w(2) by simp
    then show False using x(2) assms by simp
  qed
  then have "\<not> (\<exists>w. w \<in> set StrWhiteSpaceChars \<and> take (length w) (c # cs) = w)"
    by blast
  then have "find (\<lambda>w. take (length w) (c # cs) = w) StrWhiteSpaceChars = None"
    by (simp add: find_None_iff)
  then show ?thesis by (simp add: whiteSpacePrefix_def)
qed

lemma isDigit_not_sign: "isDigit c \<Longrightarrow> c \<noteq> CHR ''+'' \<and> c \<noteq> CHR ''-''"
  by (auto simp add: isDigit_def)

lemma parseInt10_digits:
  assumes "ds \<noteq> []" "\<forall>c\<in>set ds. isDigit c" "rest = [] \<or> \<not> isDigit (hd rest)"
  shows "parseInt10 (ds @ rest) = roundToDouble (of_int (mathInt ds))"
proof -
  obtain c cs where ds: "ds = c # cs" using assms(1) by (cases ds) auto
  have c: "isDigit c" using assms(2) ds by simp
  have t: "trimStart (ds @ rest) = c # (cs @ rest)"
    by (simp add: ds trimStart.simps[of "c # cs @ rest"] whiteSpacePrefix_digit[OF c])
  have "takeWhile isDigit rest = []"
    using assms(3) by (cases rest) auto
  then have z: "takeWhile isDigit (c # (cs @ rest)) = ds"
    using assms(2) by (simp add: ds)
  show ?thesis
    unfolding parseInt10_def Let_def t
    using isDigit_not_sign[OF c] z assms(1) by simp
qed

lemma parseInt10_no_digit:
  assumes "whiteSpacePrefix s = 0"
    and "s = [] \<or> \<not> isDigit (hd s) \<and> hd s \<noteq> CHR ''+'' \<and> hd s \<noteq> CHR ''-''"
  shows "parseInt10 s = NaN"
proof -
  have t: "trimStart s = s" using assms(1) by (simp add: trimStart.simps[of s])
  show ?thesis
    unfolding parseInt10_def Let_def t
    using assms(2) by (cases s) auto
qed

subsection \<open>The offset\<close>

lemma of_int_minus_one: "(of_int n :: rat) - 1 = of_int (n - 1)"
  by simp

lemma resolve_offset_exact:
  assumes "resolve_page pageParam = Finite (of_int p)"
    and "resolve_pageSize pageSizeParam = Finite (of_int k)"
    and "(p - 1) * k \<le> 2 ^ 53"
  shows "resolve_offset pageParam pageSizeParam = Finite (of_int ((p - 1) * k))"
proof -
  define B :: int where "B = 2 ^ 53"
  have le: "(p - 1) * k \<le> B" using assms(3) by (simp only: B_def)
  have p: "1 \<le> p" using resolve_page_cases[of pageParam] assms(1) by auto
  have k: "1 \<le> k" using resolve_pageSize_cases[of pageSizeParam] assms(2) by auto
  have p0: "0 \<le> p - 1" using p by simp
  then have "p - 1 \<le> (p - 1) * k" using k by (simp add: mult_le_cancel_left1)
  then have "\<bar>p - 1\<bar> \<le> B" using le p0 by linarith
  then have "\<bar>p - 1\<bar> \<le> 2 ^ 53" by (simp only: B_def)
  then have s: "roundToDouble (of_int (p - 1)) = Finite (of_int (p - 1))"
    by (rule roundToDouble_exact)
  have "0 \<le> (p - 1) * k" using p k by simp
  then have "\<bar>(p - 1) * k\<bar> \<le> B" using le by linarith
  then have "\<bar>(p - 1) * k\<bar> \<le> 2 ^ 53" by (simp only: B_def)
  then have m: "roundToDouble (of_int ((p - 1) * k)) = Finite (of_int ((p - 1) * k))"
    by (rule roundToDouble_exact)
  have "js_sub (Finite (of_int p)) (Finite 1) = Finite (of_int (p - 1))"
    using s by (simp only: js_sub.simps of_int_minus_one)
  moreover have "js_mul (Finite (of_int (p - 1))) (Finite (of_int k)) = Finite (of_int ((p - 1) * k))"
    using m by (simp only: js_mul.simps of_int_mult)
  ultimately show ?thesis
    by (simp only: resolve_offset_def assms(1,2))
qed

text \<open>The offset is infinite or a natural number, and not below what is below \<open>2 ^ 53\<close>.\<close>

lemma resolve_offset_ge:
  assumes "resolve_page pageParam = Finite (of_int p)"
    and "resolve_pageSize pageSizeParam = Finite (of_int k)"
    and "c \<le> 2 ^ 53" "c \<le> (p - 1) * k"
  shows "resolve_offset pageParam pageSizeParam = PosInfinity
         \<or> (\<exists>z. c \<le> z \<and> resolve_offset pageParam pageSizeParam = Finite (of_int z))"
proof -
  define B :: int where "B = 2 ^ 53"
  have B1: "1 \<le> B" by (simp add: B_def)
  have cB: "c \<le> B" using assms(3) by (simp only: B_def)
  have p: "1 \<le> p" using resolve_page_cases[of pageParam] assms(1) by auto
  have k: "1 \<le> k" using resolve_pageSize_cases[of pageSizeParam] assms(2) by auto
  have off: "resolve_offset pageParam pageSizeParam =
      js_mul (roundToDouble (of_int (p - 1))) (Finite (of_int k))"
    by (simp only: resolve_offset_def assms(1,2) js_sub.simps of_int_minus_one)
  show ?thesis
  proof (cases "(p - 1) * k \<le> 2 ^ 53")
    case True
    then show ?thesis using resolve_offset_exact[OF assms(1,2) True] assms(4) by blast
  next
    case False
    then have big: "B < (p - 1) * k" by (simp only: B_def not_le)
    have "p \<noteq> 1" using big B1 by auto
    then have p1: "1 \<le> p - 1" using p by simp
    consider "roundToDouble (of_int (p - 1)) = PosInfinity"
      | y where "roundToDouble (of_int (p - 1)) = Finite (of_int y)" "1 \<le> y"
        "p - 1 \<le> B \<longrightarrow> y = p - 1" "B \<le> p - 1 \<longrightarrow> B \<le> y"
      using roundToDouble_of_int_pos[OF p1] unfolding B_def by blast
    then show ?thesis
    proof cases
      case 1
      have "js_mul PosInfinity (Finite (of_int k)) = PosInfinity" using k by simp
      then have "resolve_offset pageParam pageSizeParam = PosInfinity" by (simp only: off 1)
      then show ?thesis by (rule disjI1)
    next
      case 2
      have yk: "B \<le> y * k"
      proof (cases "p - 1 \<le> B")
        case True
        then have "y = p - 1" using 2(3) by simp
        then show ?thesis using big by simp
      next
        case False
        then have "B \<le> y" using 2(4) by simp
        moreover have "y \<le> y * k" using 2(2) k by (simp add: mult_le_cancel_left1)
        ultimately show ?thesis by (rule order_trans)
      qed
      have "1 \<le> y * k" using B1 yk by (rule order_trans)
      then have "roundToDouble (of_int (y * k)) = PosInfinity \<or>
         (\<exists>z. roundToDouble (of_int (y * k)) = Finite (of_int z) \<and> 1 \<le> z
              \<and> (y * k \<le> 2 ^ 53 \<longrightarrow> z = y * k) \<and> (2 ^ 53 \<le> y * k \<longrightarrow> 2 ^ 53 \<le> z))"
        by (rule roundToDouble_of_int_pos)
      then consider "roundToDouble (of_int (y * k)) = PosInfinity"
        | z where "roundToDouble (of_int (y * k)) = Finite (of_int z)" "B \<le> y * k \<longrightarrow> B \<le> z"
        unfolding B_def by blast
      then show ?thesis
      proof cases
        case 1
        then show ?thesis by (simp only: off 2(1) js_mul.simps of_int_mult) simp
      next
        case (2 z)
        have "B \<le> z" using 2(2) yk by simp
        then have "c \<le> z" using cB by (rule order_trans[rotated])
        moreover have "resolve_offset pageParam pageSizeParam = Finite (of_int z)"
          using 2(1) by (simp only: off \<open>roundToDouble (of_int (p - 1)) = Finite (of_int y)\<close>
              js_mul.simps of_int_mult)
        ultimately show ?thesis by blast
      qed
    qed
  qed
qed

lemma resolve_offset_cases:
  "resolve_offset pageParam pageSizeParam = PosInfinity
   \<or> (\<exists>z. 0 \<le> z \<and> resolve_offset pageParam pageSizeParam = Finite (of_int z))"
proof -
  obtain k where k: "1 \<le> k" "resolve_pageSize pageSizeParam = Finite (of_int k)"
    using resolve_pageSize_cases[of pageSizeParam] by blast
  show ?thesis
    using resolve_page_cases[of pageParam]
  proof
    assume "resolve_page pageParam = PosInfinity"
    then show ?thesis using k by (simp add: resolve_offset_def)
  next
    assume "\<exists>p. 1 \<le> p \<and> resolve_page pageParam = Finite (of_int p)"
    then obtain p where p: "1 \<le> p" "resolve_page pageParam = Finite (of_int p)" by blast
    have "0 \<le> (p - 1) * k" using p(1) k(1) by simp
    moreover have "(0::int) \<le> 2 ^ 53" by simp
    ultimately show ?thesis using resolve_offset_ge[OF p(2) k(2), of 0] by blast
  qed
qed

lemma integer_value_of_int:
  "integer_value (Finite (of_int z)) = (if - (2 ^ 63) \<le> z \<and> z < 2 ^ 63 then Some z else None)"
proof -
  have "(- (2 ^ 63) \<le> (of_int z :: rat)) = (- (2 ^ 63) \<le> z)"
    using of_int_le_iff[of "- (2 ^ 63)" z, where ?'a = rat] by simp
  moreover have "((of_int z :: rat) < 2 ^ 63) = (z < 2 ^ 63)"
    using of_int_less_iff[of z "2 ^ 63", where ?'a = rat] by simp
  ultimately show ?thesis by (simp add: integer_value_def)
qed

lemma js_less_of_int: "js_less (Finite (of_int z)) (Finite (2 ^ 63)) = (z < 2 ^ 63)"
  using of_int_less_iff[of z "2 ^ 63", where ?'a = rat] by simp

subsection \<open>The number of pages\<close>

lemma ceiling_div_bounds:
  fixes a b :: int
  assumes "0 < b"
  shows "a \<le> \<lceil>(of_int a :: rat) / of_int b\<rceil> * b"
    and "(\<lceil>(of_int a :: rat) / of_int b\<rceil> - 1) * b < a"
proof -
  let ?c = "\<lceil>(of_int a :: rat) / of_int b\<rceil>"
  have b: "(0::rat) < of_int b" using assms by simp
  have h1: "(of_int a :: rat) / of_int b \<le> of_int ?c" by (rule le_of_int_ceiling)
  have "(of_int a :: rat) \<le> of_int ?c * of_int b"
    using pos_divide_le_eq[OF b, of "of_int a" "of_int ?c"] h1 by blast
  then have "(of_int a :: rat) \<le> of_int (?c * b)" by simp
  then show "a \<le> ?c * b" by (simp only: of_int_le_iff)
  have h2: "of_int ?c - 1 < (of_int a :: rat) / of_int b"
    using ceiling_correct[of "(of_int a :: rat) / of_int b"] by simp
  have "(of_int ?c - 1) * of_int b < (of_int a :: rat)"
    using pos_less_divide_eq[OF b, of "of_int ?c - 1" "of_int a"] h2 by blast
  then have "(of_int ((?c - 1) * b) :: rat) < of_int a" by simp
  then show "(?c - 1) * b < a" by (simp only: of_int_less_iff)
qed

text \<open>
  Below \<open>2 ^ 53\<close> items the division's rounding error is less than \<open>1 / pageSize\<close>, the
  least distance of a quotient that is no integer from the integers: the ceiling of the
  rounded quotient is the ceiling of the quotient.
\<close>

lemma Math_ceil_js_div:
  fixes c k :: int
  assumes c: "0 \<le> c" "c < 2 ^ 53" and k: "1 \<le> k" "k \<le> 100"
  shows "Math_ceil (js_div (Finite (of_int c)) (Finite (of_int k))) =
           Finite (of_int \<lceil>(of_int c :: rat) / of_int k\<rceil>)"
proof -
  define B :: int where "B = 2 ^ 53"
  have cB: "c < B" using c(2) by (simp only: B_def)
  have B0: "0 < B" by (simp add: B_def)
  define q :: rat where "q = of_int c / of_int k"
  define t where "t = \<lceil>q\<rceil>"
  define K :: rat where "K = of_int k"
  define C :: rat where "C = of_int c"
  have K: "1 \<le> K" "K \<le> 100" "0 < K" using k by (simp_all add: K_def)
  have qK: "q * K = C" using K(3) by (simp add: q_def K_def C_def)
  have d: "js_div (Finite (of_int c)) (Finite (of_int k)) = roundToDouble q"
    using k by (simp add: q_def)
  have b1: "c \<le> t * k" and b2: "(t - 1) * k < c"
    using ceiling_div_bounds[of k c] k by (simp_all add: t_def q_def)
  show ?thesis
  proof (cases "c = t * k")
    case True
    have "C = of_int t * K" by (simp add: C_def K_def True)
    then have qt: "q = of_int t" using qK K(3) by simp
    have "0 \<le> t" using c(1) k True by (simp add: zero_le_mult_iff)
    moreover have "t \<le> t * k" using \<open>0 \<le> t\<close> k by (simp add: mult_le_cancel_left1)
    ultimately have "\<bar>t\<bar> \<le> B" using cB True by linarith
    then have "\<bar>t\<bar> \<le> 2 ^ 53" by (simp only: B_def)
    then have "roundToDouble (of_int t) = Finite (of_int t)" by (rule roundToDouble_exact)
    then show ?thesis unfolding d qt q_def[symmetric] t_def[symmetric] by simp
  next
    case False
    then have lt: "c + 1 \<le> t * k" using b1 by linarith
    have ge: "(t - 1) * k + 1 \<le> c" using b2 by linarith
    have c1: "1 \<le> c"
    proof (rule ccontr)
      assume "\<not> 1 \<le> c"
      then have "c = 0" using c(1) by simp
      then have "t = 0" by (simp add: t_def q_def)
      then show False using False \<open>c = 0\<close> by simp
    qed
    have ltC: "C + 1 \<le> of_int t * K"
    proof -
      have "(of_int (c + 1) :: rat) \<le> of_int (t * k)" using lt by (simp only: of_int_le_iff)
      then show ?thesis by (simp add: C_def K_def)
    qed
    have geC: "(of_int t - 1) * K + 1 \<le> C"
    proof -
      have "(of_int ((t - 1) * k + 1) :: rat) \<le> of_int c" using ge by (simp only: of_int_le_iff)
      then show ?thesis by (simp add: C_def K_def)
    qed
    have C1: "1 \<le> C" using c1 by (simp add: C_def)
    have CB: "C < 2 ^ 53"
    proof -
      have "(of_int c :: rat) < of_int (2 ^ 53)" using c(2) by (simp only: of_int_less_iff)
      then show ?thesis by (simp add: C_def)
    qed
    have q0: "0 < q" using C1 K(3) by (simp add: q_def C_def[symmetric] K_def[symmetric])
    have "1 \<le> q * 100"
    proof -
      have "q * K \<le> q * 100" using K(2) q0 by (intro mult_left_mono) simp_all
      then show ?thesis using qK C1 by linarith
    qed
    then have "1 / 128 \<le> q" by simp
    moreover have "(2::rat) powi (- 7) = 1 / 128" by (simp add: power_int_def field_simps)
    ultimately have "(2::rat) powi (- 7) \<le> q" by simp
    moreover have "(2::rat) powi (- 1022) \<le> 2 powi (- 7)"
      by (intro power_int_increasing) simp_all
    ultimately have norm: "2 powi (- 1022) \<le> q" by linarith
    define v where "v = nearest q"
    define e where "e = \<bar>v - q\<bar>"
    have e53: "e * 2 ^ 53 \<le> q" using nearest_relative_error[OF norm] by (simp add: e_def v_def)
    have "(e * 2 ^ 53) * K \<le> q * K" using e53 K(3) by (intro mult_right_mono) simp_all
    then have "(e * K) * 2 ^ 53 \<le> C" by (simp add: qK mult.assoc mult.commute[of K])
    then have "(e * K) * 2 ^ 53 < 2 ^ 53" using CB by linarith
    then have eK: "e * K < 1" by simp
    have "\<bar>v * K - C\<bar> = e * K"
    proof -
      have "v * K - C = (v - q) * K" using qK by (simp add: algebra_simps)
      then show ?thesis using K(3) by (simp add: abs_mult e_def)
    qed
    then have vK: "C - 1 < v * K" "v * K < C + 1" using eK by linarith+
    have "(of_int t - 1) * K < v * K" using vK(1) geC by linarith
    then have lo: "of_int t - 1 < v" using K(3) by (simp only: mult_less_cancel_right_pos)
    have "v * K < of_int t * K" using vK(2) ltC by linarith
    then have hi: "v < of_int t" using K(3) by (simp only: mult_less_cancel_right_pos)
    have tB: "(of_int t :: rat) \<le> 2 ^ 53"
    proof -
      have "t \<le> B"
      proof (cases "t - 1 < 0")
        case True then show ?thesis using B0 by linarith
      next
        case False
        then have "t - 1 \<le> (t - 1) * k" using k(1) by (simp add: mult_le_cancel_left1)
        then show ?thesis using ge cB by linarith
      qed
      then have "t \<le> 2 ^ 53" by (simp only: B_def)
      then have "(of_int t :: rat) \<le> of_int (2 ^ 53)" by (simp only: of_int_le_iff)
      then show ?thesis by simp
    qed
    have "v < 2 ^ 1024"
    proof -
      have "(2::rat) ^ 53 < 2 ^ 1024" by simp
      then show ?thesis using hi tB by linarith
    qed
    then have "roundToDouble q = Finite v"
      using roundToDouble_pos[OF q0] by (simp add: v_def)
    moreover have "\<lceil>v\<rceil> = t" using lo hi by (intro ceiling_unique) simp_all
    ultimately show ?thesis unfolding d q_def[symmetric] t_def[symmetric] by simp
  qed
qed

subsection \<open>The answer\<close>

lemma length_activity_rows: "int (length (activity_rows db)) = run_countQuery db"
  by (simp add: activity_rows_def run_countQuery_def)

lemma run_dataQuery_rows:
  "\<exists>rows. int (length rows) = run_countQuery db \<and>
     (\<forall>k offset. 0 \<le> k \<and> k < 2 ^ 63 \<longrightarrow>
        run_dataQuery (orderByColumn sortByParam) (toUpperCase (resolve_sortOrder sortOrderParam))
          (Finite (of_int k)) offset db =
        map_option (\<lambda>off. take (nat k) (drop (nat off) rows)) (integer_value offset))"
proof -
  define key :: "UniqueActivityRecord \<Rightarrow> int"
    where "key = (if sortByParam = Some ''total_pings'' then total_pings else first_seen)"
  define rows where "rows = (if sortOrderParam = Some ''asc'' then sort_key key (activity_rows db)
                             else rev (sort_key key (activity_rows db)))"
  have "int (length rows) = run_countQuery db"
    by (simp add: rows_def length_activity_rows)
  moreover have "run_dataQuery (orderByColumn sortByParam)
       (toUpperCase (resolve_sortOrder sortOrderParam)) (Finite (of_int k)) offset db =
       map_option (\<lambda>off. take (nat k) (drop (nat off) rows)) (integer_value offset)"
    if "0 \<le> k \<and> k < 2 ^ 63" for k offset
  proof -
    have "integer_value (Finite (of_int k)) = Some k"
      using that by (simp only: integer_value_of_int) simp
    then show ?thesis using that
      by (cases "integer_value offset")
        (simp_all add: run_dataQuery_def orderByColumn_cases direction_cases rows_def key_def)
  qed
  ultimately show ?thesis by blast
qed

lemma unique_activity_GET:
  "\<exists>rows k z. int (length rows) = run_countQuery db
     \<and> 1 \<le> k \<and> k \<le> 100 \<and> resolve_pageSize pageSizeParam = Finite (of_int k)
     \<and> (resolve_offset pageParam pageSizeParam = PosInfinity
          \<or> 0 \<le> z \<and> resolve_offset pageParam pageSizeParam = Finite (of_int z))
     \<and> unique_activity_handler ''GET'' pageParam pageSizeParam sortByParam sortOrderParam db =
         (if js_less (resolve_offset pageParam pageSizeParam) (Finite (2 ^ 63))
          then Json_Response
                 \<lparr>data = take (nat k) (drop (nat z) rows),
                  pagination =
                    \<lparr>totalItems = roundToDouble (of_int (run_countQuery db)),
                     currentPage = resolve_page pageParam,
                     pageSize = resolve_pageSize pageSizeParam,
                     totalPages =
                       Math_ceil (js_div (roundToDouble (of_int (run_countQuery db)))
                                         (resolve_pageSize pageSizeParam))\<rparr>\<rparr>
          else Plain_Response 500 ''Error querying database'')"
proof -
  obtain rows where len: "int (length rows) = run_countQuery db"
    and q: "\<And>k offset. 0 \<le> k \<and> k < 2 ^ 63 \<Longrightarrow>
        run_dataQuery (orderByColumn sortByParam) (toUpperCase (resolve_sortOrder sortOrderParam))
          (Finite (of_int k)) offset db =
        map_option (\<lambda>off. take (nat k) (drop (nat off) rows)) (integer_value offset)"
    using run_dataQuery_rows[of db sortByParam sortOrderParam] by blast
  obtain k where k: "1 \<le> k" "k \<le> 100" "resolve_pageSize pageSizeParam = Finite (of_int k)"
    using resolve_pageSize_cases[of pageSizeParam] by blast
  have "0 \<le> k \<and> k < 2 ^ 63" using k(1,2) by simp
  note run = q[OF this]
  show ?thesis
    using resolve_offset_cases[of pageParam pageSizeParam]
  proof
    assume inf: "resolve_offset pageParam pageSizeParam = PosInfinity"
    have "unique_activity_handler ''GET'' pageParam pageSizeParam sortByParam sortOrderParam db =
        Plain_Response 500 ''Error querying database''"
      by (simp add: unique_activity_handler_def Let_def k(3) inf run integer_value_def)
    then show ?thesis using len k inf by (intro exI[of _ rows] exI[of _ k] exI[of _ 0]) simp
  next
    assume "\<exists>z. 0 \<le> z \<and> resolve_offset pageParam pageSizeParam = Finite (of_int z)"
    then obtain z where z: "0 \<le> z" "resolve_offset pageParam pageSizeParam = Finite (of_int z)"
      by blast
    have iv: "integer_value (Finite (of_int z)) = (if z < 2 ^ 63 then Some z else None)"
      using z(1) by (simp only: integer_value_of_int) simp
    have "unique_activity_handler ''GET'' pageParam pageSizeParam sortByParam sortOrderParam db =
         (if z < 2 ^ 63
          then Json_Response
                 \<lparr>data = take (nat k) (drop (nat z) rows),
                  pagination =
                    \<lparr>totalItems = roundToDouble (of_int (run_countQuery db)),
                     currentPage = resolve_page pageParam,
                     pageSize = resolve_pageSize pageSizeParam,
                     totalPages =
                       Math_ceil (js_div (roundToDouble (of_int (run_countQuery db)))
                                         (resolve_pageSize pageSizeParam))\<rparr>\<rparr>
          else Plain_Response 500 ''Error querying database'')"
      by (simp add: unique_activity_handler_def Let_def k(3) z(2) run iv)
    then show ?thesis using len k z
      by (intro exI[of _ rows] exI[of _ k] exI[of _ z]) (simp add: js_less_of_int)
  qed
qed

text \<open>A page number beyond \<open>2 ^ 63\<close> makes an offset the storage refuses.\<close>

lemma resolve_offset_huge:
  assumes "resolve_page pageParam = Finite (of_int p)" "2 ^ 63 < p"
  shows "\<not> js_less (resolve_offset pageParam pageSizeParam) (Finite (2 ^ 63))"
proof -
  define B :: int where "B = 2 ^ 63"
  have B: "B < p" using assms(2) by (simp only: B_def)
  obtain k where k: "1 \<le> k" "resolve_pageSize pageSizeParam = Finite (of_int k)"
    using resolve_pageSize_cases[of pageSizeParam] by blast
  have off: "resolve_offset pageParam pageSizeParam =
      js_mul (roundToDouble (of_int (p - 1))) (Finite (of_int k))"
    by (simp only: resolve_offset_def assms(1) k(2) js_sub.simps of_int_minus_one)
  have "B \<le> p - 1" using B by simp
  then have "2 ^ 63 \<le> p - 1" by (simp only: B_def)
  then consider "roundToDouble (of_int (p - 1)) = PosInfinity"
    | y where "2 ^ 63 \<le> y" "roundToDouble (of_int (p - 1)) = Finite (of_int y)"
    using roundToDouble_of_int_ge[of 63 "p - 1"] by blast
  then show ?thesis
  proof cases
    case 1
    have "js_mul PosInfinity (Finite (of_int k)) = PosInfinity" using k(1) by simp
    then have "resolve_offset pageParam pageSizeParam = PosInfinity" by (simp only: off 1)
    then show ?thesis by simp
  next
    case 2
    have y: "B \<le> y" using 2(1) by (simp only: B_def)
    then have y0: "0 \<le> y" by (simp add: B_def)
    have "y \<le> y * k" using y0 k(1) by (simp add: mult_le_cancel_left1)
    then have "B \<le> y * k" using y by linarith
    then have "2 ^ 63 \<le> y * k" by (simp only: B_def)
    then consider "roundToDouble (of_int (y * k)) = PosInfinity"
      | z where "2 ^ 63 \<le> z" "roundToDouble (of_int (y * k)) = Finite (of_int z)"
      using roundToDouble_of_int_ge[of 63 "y * k"] by blast
    moreover have r: "resolve_offset pageParam pageSizeParam = roundToDouble (of_int (y * k))"
      by (simp only: off 2(2) js_mul.simps of_int_mult)
    ultimately show ?thesis
    proof cases
      case 1
      then show ?thesis by (simp add: r)
    next
      case (2 z)
      have "resolve_offset pageParam pageSizeParam = Finite (of_int z)"
        using 2(2) by (simp only: r)
      then show ?thesis using 2(1) by (simp add: js_less_of_int)
    qed
  qed
qed

lemma resolve_offset_infinite:
  "resolve_page pageParam = PosInfinity \<Longrightarrow> resolve_offset pageParam pageSizeParam = PosInfinity"
proof -
  assume inf: "resolve_page pageParam = PosInfinity"
  obtain k where k: "1 \<le> k" "resolve_pageSize pageSizeParam = Finite (of_int k)"
    using resolve_pageSize_cases[of pageSizeParam] by blast
  show ?thesis using k(1) by (simp add: resolve_offset_def inf k(2))
qed

text \<open>Below \<open>2 ^ 53\<close> items the count and the number of pages are exact.\<close>

lemma totalPages_exact:
  assumes "run_countQuery db < 2 ^ 53" "resolve_pageSize pageSizeParam = Finite (of_int k)"
  shows "roundToDouble (of_int (run_countQuery db)) = Finite (of_int (run_countQuery db))"
    and "Math_ceil (js_div (roundToDouble (of_int (run_countQuery db)))
                       (resolve_pageSize pageSizeParam)) =
           Finite (of_int \<lceil>(of_int (run_countQuery db) :: rat) / of_int k\<rceil>)"
proof -
  have c0: "0 \<le> run_countQuery db" by (simp add: run_countQuery_def)
  have k: "1 \<le> k" "k \<le> 100" using resolve_pageSize_cases[of pageSizeParam] assms(2) by auto
  define B :: int where "B = 2 ^ 53"
  have "run_countQuery db < B" using assms(1) by (simp only: B_def)
  then have "\<bar>run_countQuery db\<bar> \<le> B" using c0 by linarith
  then have "\<bar>run_countQuery db\<bar> \<le> 2 ^ 53" by (simp only: B_def)
  then show e: "roundToDouble (of_int (run_countQuery db)) = Finite (of_int (run_countQuery db))"
    by (rule roundToDouble_exact)
  show "Math_ceil (js_div (roundToDouble (of_int (run_countQuery db)))
                       (resolve_pageSize pageSizeParam)) =
           Finite (of_int \<lceil>(of_int (run_countQuery db) :: rat) / of_int k\<rceil>)"
    unfolding e assms(2) using c0 assms(1) k by (rule Math_ceil_js_div)
qed

text \<open>Selectors for the later conjuncts of a long conjunction.\<close>

lemmas conj_skip2 = conjunct2[THEN conjunct2]

lemmas conj_skip4 = conj_skip2[THEN conj_skip2]

lemmas conj_skip8 = conj_skip4[THEN conj_skip4]

lemmas conj_skip16 = conj_skip8[THEN conj_skip8]

subsection \<open>Pagination: the claims\<close>

lemma parseInt10_value:
  assumes "ds \<noteq> []" "\<forall>c\<in>set ds. isDigit c" "rest = [] \<or> \<not> isDigit (hd rest)"
    and "mathInt ds = n" "\<bar>n\<bar> \<le> 2 ^ 53"
  shows "parseInt10 (ds @ rest) = Finite (of_int n)"
  using parseInt10_digits[OF assms(1,2,3)] roundToDouble_exact[OF assms(5)] assms(4) by simp

lemma parseInt10_examples:
  "parseInt10 ''abc'' = NaN"
  "parseInt10 ''0'' = Finite 0"
  "parseInt10 ''2'' = Finite 2"
  "parseInt10 ''3'' = Finite 3"
  "parseInt10 ''5'' = Finite 5"
  "parseInt10 ''7'' = Finite 7"
  "parseInt10 ''20'' = Finite 20"
  "parseInt10 ''100'' = Finite 100"
  "parseInt10 ''500'' = Finite 500"
  "parseInt10 ''42abc'' = Finite 42"
  "parseInt10 ''12.9'' = Finite 12"
  "parseInt10 ''9007199254740991'' = Finite 9007199254740991"
proof -
  show "parseInt10 ''abc'' = NaN"
    using parseInt10_no_digit[of "''abc''"]
    by (simp add: whiteSpacePrefix_def StrWhiteSpaceChars_def isDigit_def)
  show "parseInt10 ''0'' = Finite 0"
    using parseInt10_value[of "''0''" "[]" 0] by (simp add: isDigit_def mathInt_def digitValue_def)
  show "parseInt10 ''2'' = Finite 2"
    using parseInt10_value[of "''2''" "[]" 2] by (simp add: isDigit_def mathInt_def digitValue_def)
  show "parseInt10 ''3'' = Finite 3"
    using parseInt10_value[of "''3''" "[]" 3] by (simp add: isDigit_def mathInt_def digitValue_def)
  show "parseInt10 ''5'' = Finite 5"
    using parseInt10_value[of "''5''" "[]" 5] by (simp add: isDigit_def mathInt_def digitValue_def)
  show "parseInt10 ''7'' = Finite 7"
    using parseInt10_value[of "''7''" "[]" 7] by (simp add: isDigit_def mathInt_def digitValue_def)
  show "parseInt10 ''20'' = Finite 20"
    using parseInt10_value[of "''20''" "[]" 20] by (simp add: isDigit_def mathInt_def digitValue_def)
  show "parseInt10 ''100'' = Finite 100"
    using parseInt10_value[of "''100''" "[]" 100] by (simp add: isDigit_def mathInt_def digitValue_def)
  show "parseInt10 ''500'' = Finite 500"
    using parseInt10_value[of "''500''" "[]" 500] by (simp add: isDigit_def mathInt_def digitValue_def)
  show "parseInt10 ''42abc'' = Finite 42"
    using parseInt10_value[of "''42''" "''abc''" 42]
    by (simp add: isDigit_def mathInt_def digitValue_def)
  show "parseInt10 ''12.9'' = Finite 12"
    using parseInt10_value[of "''12''" "''.9''" 12]
    by (simp add: isDigit_def mathInt_def digitValue_def)
  show "parseInt10 ''9007199254740991'' = Finite 9007199254740991"
    using parseInt10_value[of "''9007199254740991''" "[]" 9007199254740991]
    by (simp add: isDigit_def mathInt_def digitValue_def)
qed

text \<open>
  \<^verbatim>\<open>page=99999999999999999999999\<close>: the nearest number is read, and the offset it makes is
  beyond what the storage takes.
\<close>

lemma parseInt10_huge:
  "parseInt10 ''99999999999999999999999'' = Finite 99999999999999991611392"
proof -
  have "roundToDouble 99999999999999999999999 = Finite 99999999999999991611392"
    using roundToDouble_near[of 76 99999999999999999999999 5960464477539062] by simp
  then show ?thesis
    using parseInt10_digits[of "''99999999999999999999999''" "[]"]
    by (simp add: isDigit_def mathInt_def digitValue_def)
qed

text \<open>
  \<^verbatim>\<open>page=9007199254740991&pageSize=100\<close>: the product 900719925474099000 is no double, and
  the offset bound is the double nearest to it.
\<close>

lemma resolve_offset_rounded:
  "resolve_offset (Some ''9007199254740991'') (Some ''100'') = Finite 900719925474098944"
proof -
  have "roundToDouble 900719925474099000 = Finite 900719925474098944"
    using roundToDouble_near[of 59 900719925474099000 7036874417766398] by simp
  moreover have "roundToDouble 9007199254740990 = Finite 9007199254740990"
    using roundToDouble_exact[of 9007199254740990] by simp
  ultimately show ?thesis
    by (simp add: resolve_offset_def resolve_page_Some resolve_pageSize_Some parseInt10_examples
        isNaN_def)
qed

text \<open>
  C4, as the code has it. The page number is 1 when the parameter is absent or empty,
  when \<^verbatim>\<open>parseInt\<close> reads no number from it (NaN) or one below 1, and the number read
  otherwise. The page size is 10 when the parameter is absent or empty, when no number
  is read or one below 1 (the default, not the lower bound), 100 when the number read
  is above 100, and the number read otherwise; so it is always an integer from 1 to
  100, and the page number an integer from 1 or infinite. \<^verbatim>\<open>parseInt\<close> reads the digits
  a value starts with, whatever follows them, and rounds the integer they write to the
  nearest number, which is that integer up to \<open>2 ^ 53\<close>; a value that starts with
  neither white space, a sign nor a digit reads as NaN. The values bound to the
  statement are the page size and the offset \<open>(page - 1) * pageSize\<close> of number
  arithmetic, which is the product of the integers when that product is at most
  \<open>2 ^ 53\<close>. A GET is answered with a 500 when the offset is \<open>2 ^ 63\<close> or more, and otherwise
  with the rows after the offset, at most a page of them, \<open>totalItems\<close> the number of
  identifiers, \<open>currentPage\<close> and \<open>pageSize\<close> as resolved, and \<open>totalPages\<close> the ceiling of
  the quotient of numbers; below \<open>2 ^ 53\<close> identifiers that is the ceiling of
  \<open>totalItems / pageSize\<close> exactly, the least number of pages that hold all items.
\<close>

theorem pagination_resolution:
  "resolve_page None = Finite 1 \<and> resolve_page (Some []) = Finite 1
   \<and> (isNaN (parseInt10 s) \<or> js_less (parseInt10 s) (Finite 1) \<longrightarrow>
        resolve_page (Some s) = Finite 1)
   \<and> (\<not> isNaN (parseInt10 s) \<and> \<not> js_less (parseInt10 s) (Finite 1) \<longrightarrow>
        resolve_page (Some s) = parseInt10 s)
   \<and> resolve_pageSize None = Finite 10 \<and> resolve_pageSize (Some []) = Finite 10
   \<and> (isNaN (parseInt10 s) \<or> js_less (parseInt10 s) (Finite 1) \<longrightarrow>
        resolve_pageSize (Some s) = Finite 10)
   \<and> (js_less (Finite 100) (parseInt10 s) \<longrightarrow> resolve_pageSize (Some s) = Finite 100)
   \<and> (\<not> isNaN (parseInt10 s) \<and> \<not> js_less (parseInt10 s) (Finite 1)
        \<and> \<not> js_less (Finite 100) (parseInt10 s) \<longrightarrow>
        resolve_pageSize (Some s) = parseInt10 s)
   \<and> (\<exists>j. 1 \<le> j \<and> j \<le> 100 \<and> resolve_pageSize pageSizeParam = Finite (of_int j))
   \<and> (resolve_page pageParam = PosInfinity
        \<or> (\<exists>j. 1 \<le> j \<and> resolve_page pageParam = Finite (of_int j)))
   \<and> (ds \<noteq> [] \<and> (\<forall>c\<in>set ds. isDigit c) \<and> (rest = [] \<or> \<not> isDigit (hd rest)) \<longrightarrow>
        parseInt10 (ds @ rest) = roundToDouble (of_int (mathInt ds)))
   \<and> (whiteSpacePrefix s = 0
        \<and> (s = [] \<or> \<not> isDigit (hd s) \<and> hd s \<noteq> CHR ''+'' \<and> hd s \<noteq> CHR ''-'') \<longrightarrow>
        parseInt10 s = NaN)
   \<and> (\<bar>n\<bar> \<le> 2 ^ 53 \<longrightarrow> roundToDouble (of_int n) = Finite (of_int n))
   \<and> bindings (dataStatement pageParam pageSizeParam sortByParam sortOrderParam) =
       [Number (resolve_pageSize pageSizeParam), Number (resolve_offset pageParam pageSizeParam)]
   \<and> resolve_offset pageParam pageSizeParam =
       js_mul (js_sub (resolve_page pageParam) (Finite 1)) (resolve_pageSize pageSizeParam)
   \<and> (resolve_page pageParam = Finite (of_int p) \<and> resolve_pageSize pageSizeParam = Finite (of_int k)
        \<and> (p - 1) * k \<le> 2 ^ 53 \<longrightarrow>
        resolve_offset pageParam pageSizeParam = Finite (of_int ((p - 1) * k)))
   \<and> (\<exists>rows j z. int (length rows) = run_countQuery db
        \<and> 1 \<le> j \<and> j \<le> 100 \<and> resolve_pageSize pageSizeParam = Finite (of_int j)
        \<and> (resolve_offset pageParam pageSizeParam = PosInfinity
             \<or> 0 \<le> z \<and> resolve_offset pageParam pageSizeParam = Finite (of_int z))
        \<and> unique_activity_handler ''GET'' pageParam pageSizeParam sortByParam sortOrderParam db =
            (if js_less (resolve_offset pageParam pageSizeParam) (Finite (2 ^ 63))
             then Json_Response
                    \<lparr>data = take (nat j) (drop (nat z) rows),
                     pagination =
                       \<lparr>totalItems = roundToDouble (of_int (run_countQuery db)),
                        currentPage = resolve_page pageParam,
                        pageSize = resolve_pageSize pageSizeParam,
                        totalPages =
                          Math_ceil (js_div (roundToDouble (of_int (run_countQuery db)))
                                            (resolve_pageSize pageSizeParam))\<rparr>\<rparr>
             else Plain_Response 500 ''Error querying database''))
   \<and> (run_countQuery db < 2 ^ 53 \<and> resolve_pageSize pageSizeParam = Finite (of_int k) \<longrightarrow>
        roundToDouble (of_int (run_countQuery db)) = Finite (of_int (run_countQuery db))
        \<and> Math_ceil (js_div (roundToDouble (of_int (run_countQuery db)))
                           (resolve_pageSize pageSizeParam)) =
            Finite (of_int \<lceil>(of_int (run_countQuery db) :: rat) / of_int k\<rceil>)
        \<and> run_countQuery db \<le> \<lceil>(of_int (run_countQuery db) :: rat) / of_int k\<rceil> * k
        \<and> (\<lceil>(of_int (run_countQuery db) :: rat) / of_int k\<rceil> - 1) * k < run_countQuery db)"
proof -
  have p0: "resolve_page None = Finite 1 \<and> resolve_page (Some []) = Finite 1"
    by (simp add: resolve_page_def isNaN_def)
  have p1: "isNaN (parseInt10 s) \<or> js_less (parseInt10 s) (Finite 1) \<longrightarrow>
        resolve_page (Some s) = Finite 1"
    by (simp add: resolve_page_Some)
  have p2: "\<not> isNaN (parseInt10 s) \<and> \<not> js_less (parseInt10 s) (Finite 1) \<longrightarrow>
        resolve_page (Some s) = parseInt10 s"
    by (simp add: resolve_page_Some)
  have s0: "resolve_pageSize None = Finite 10 \<and> resolve_pageSize (Some []) = Finite 10"
    by (simp add: resolve_pageSize_def isNaN_def)
  have s1: "isNaN (parseInt10 s) \<or> js_less (parseInt10 s) (Finite 1) \<longrightarrow>
        resolve_pageSize (Some s) = Finite 10"
    by (simp add: resolve_pageSize_Some)
  have s2: "js_less (Finite 100) (parseInt10 s) \<longrightarrow> resolve_pageSize (Some s) = Finite 100"
    by (cases "parseInt10 s") (auto simp add: resolve_pageSize_Some isNaN_def)
  have s3: "\<not> isNaN (parseInt10 s) \<and> \<not> js_less (parseInt10 s) (Finite 1)
        \<and> \<not> js_less (Finite 100) (parseInt10 s) \<longrightarrow>
        resolve_pageSize (Some s) = parseInt10 s"
    by (simp add: resolve_pageSize_Some)
  have d: "ds \<noteq> [] \<and> (\<forall>c\<in>set ds. isDigit c) \<and> (rest = [] \<or> \<not> isDigit (hd rest)) \<longrightarrow>
        parseInt10 (ds @ rest) = roundToDouble (of_int (mathInt ds))"
    using parseInt10_digits[of ds rest] by blast
  have nd: "whiteSpacePrefix s = 0
        \<and> (s = [] \<or> \<not> isDigit (hd s) \<and> hd s \<noteq> CHR ''+'' \<and> hd s \<noteq> CHR ''-'') \<longrightarrow>
        parseInt10 s = NaN"
    using parseInt10_no_digit[of s] by blast
  have ex: "\<bar>n\<bar> \<le> 2 ^ 53 \<longrightarrow> roundToDouble (of_int n) = Finite (of_int n)"
    using roundToDouble_exact[of n] by blast
  have b: "bindings (dataStatement pageParam pageSizeParam sortByParam sortOrderParam) =
       [Number (resolve_pageSize pageSizeParam), Number (resolve_offset pageParam pageSizeParam)]"
    by (simp add: dataStatement_def Let_def)
  have o: "resolve_offset pageParam pageSizeParam =
       js_mul (js_sub (resolve_page pageParam) (Finite 1)) (resolve_pageSize pageSizeParam)"
    by (rule resolve_offset_def)
  have oe: "resolve_page pageParam = Finite (of_int p) \<and> resolve_pageSize pageSizeParam = Finite (of_int k)
        \<and> (p - 1) * k \<le> 2 ^ 53 \<longrightarrow>
        resolve_offset pageParam pageSizeParam = Finite (of_int ((p - 1) * k))"
    using resolve_offset_exact[of pageParam p pageSizeParam k] by blast
  have t: "run_countQuery db < 2 ^ 53 \<and> resolve_pageSize pageSizeParam = Finite (of_int k) \<longrightarrow>
        roundToDouble (of_int (run_countQuery db)) = Finite (of_int (run_countQuery db))
        \<and> Math_ceil (js_div (roundToDouble (of_int (run_countQuery db)))
                           (resolve_pageSize pageSizeParam)) =
            Finite (of_int \<lceil>(of_int (run_countQuery db) :: rat) / of_int k\<rceil>)
        \<and> run_countQuery db \<le> \<lceil>(of_int (run_countQuery db) :: rat) / of_int k\<rceil> * k
        \<and> (\<lceil>(of_int (run_countQuery db) :: rat) / of_int k\<rceil> - 1) * k < run_countQuery db"
  proof (intro impI, elim conjE)
    assume a: "run_countQuery db < 2 ^ 53" "resolve_pageSize pageSizeParam = Finite (of_int k)"
    have k: "0 < k" using resolve_pageSize_cases[of pageSizeParam] a(2) by auto
    show "roundToDouble (of_int (run_countQuery db)) = Finite (of_int (run_countQuery db))
        \<and> Math_ceil (js_div (roundToDouble (of_int (run_countQuery db)))
                           (resolve_pageSize pageSizeParam)) =
            Finite (of_int \<lceil>(of_int (run_countQuery db) :: rat) / of_int k\<rceil>)
        \<and> run_countQuery db \<le> \<lceil>(of_int (run_countQuery db) :: rat) / of_int k\<rceil> * k
        \<and> (\<lceil>(of_int (run_countQuery db) :: rat) / of_int k\<rceil> - 1) * k < run_countQuery db"
      using totalPages_exact[OF a] ceiling_div_bounds[OF k, of "run_countQuery db"] by blast
  qed
  show ?thesis
    by (intro conjI p0[THEN conjunct1] p0[THEN conjunct2] p1 p2 s0[THEN conjunct1]
        s0[THEN conjunct2] s1 s2 s3 resolve_pageSize_cases resolve_page_cases d nd ex b o oe
        unique_activity_GET t)
qed

text \<open>
  On a log of three identifiers, the second page of two by the number of events in
  ascending order; the other conjuncts at \<^verbatim>\<open>abc\<close>, \<^verbatim>\<open>0\<close>, \<^verbatim>\<open>500\<close>, \<^verbatim>\<open>42abc\<close>, \<^verbatim>\<open>12.9\<close>.
\<close>

theorem pagination_resolution_witness:
  "isNaN (parseInt10 ''abc'')
   \<and> resolve_page (Some ''abc'') = Finite 1 \<and> resolve_pageSize (Some ''abc'') = Finite 10
   \<and> js_less (parseInt10 ''0'') (Finite 1)
   \<and> resolve_page (Some ''0'') = Finite 1 \<and> resolve_pageSize (Some ''0'') = Finite 10
   \<and> js_less (Finite 100) (parseInt10 ''500'')
   \<and> resolve_page (Some ''500'') = Finite 500 \<and> resolve_pageSize (Some ''500'') = Finite 100
   \<and> \<not> isNaN (parseInt10 ''7'') \<and> \<not> js_less (parseInt10 ''7'') (Finite 1)
   \<and> \<not> js_less (Finite 100) (parseInt10 ''7'')
   \<and> resolve_page (Some ''7'') = Finite 7 \<and> resolve_pageSize (Some ''7'') = Finite 7
   \<and> ''42'' \<noteq> [] \<and> isDigit CHR ''4'' \<and> isDigit CHR ''2'' \<and> \<not> isDigit (hd ''abc'') \<and> mathInt ''42'' = 42
   \<and> \<bar>42::int\<bar> \<le> 2 ^ 53
   \<and> parseInt10 ''42abc'' = Finite 42 \<and> resolve_pageSize (Some ''42abc'') = Finite 42
   \<and> parseInt10 ''12.9'' = Finite 12 \<and> resolve_page (Some ''12.9'') = Finite 12
   \<and> whiteSpacePrefix ''abc'' = 0 \<and> \<not> isDigit (hd ''abc'')
   \<and> resolve_page (Some ''3'') = Finite (of_int 3) \<and> resolve_pageSize (Some ''20'') = Finite (of_int 20)
   \<and> (3 - 1) * 20 \<le> (2::int) ^ 53
   \<and> bindings (dataStatement (Some ''3'') (Some ''20'') None None) = [Number (Finite 20), Number (Finite 40)]
   \<and> run_countQuery
        \<lparr>ip_registry = [],
         ip_pings = [(''a'', 5), (''b'', 7), (''a'', 9), (''c'', 1), (''b'', 20), (''a'', 30)]\<rparr> < 2 ^ 53
   \<and> resolve_pageSize (Some ''2'') = Finite (of_int 2)
   \<and> unique_activity_handler ''GET'' (Some ''2'') (Some ''2'') (Some ''total_pings'') (Some ''asc'')
        \<lparr>ip_registry = [],
         ip_pings = [(''a'', 5), (''b'', 7), (''a'', 9), (''c'', 1), (''b'', 20), (''a'', 30)]\<rparr> =
       Json_Response
         \<lparr>data = [\<lparr>ip_hmac = ''a'', first_seen = 5, last_seen = 30, total_pings = 3\<rparr>],
          pagination = \<lparr>totalItems = Finite 3, currentPage = Finite 2, pageSize = Finite 2,
                        totalPages = Finite 2\<rparr>\<rparr>"
proof -
  let ?db = "\<lparr>ip_registry = [],
         ip_pings = [(''a'', 5), (''b'', 7), (''a'', 9), (''c'', 1), (''b'', 20), (''a'', 30)]\<rparr>"
  note ex = parseInt10_examples
  have c: "run_countQuery ?db = 3" by code_simp
  have d: "''42'' \<noteq> [] \<and> isDigit CHR ''4'' \<and> isDigit CHR ''2'' \<and> \<not> isDigit (hd ''abc'') \<and> mathInt ''42'' = 42"
    by (simp add: isDigit_def mathInt_def digitValue_def)
  have w: "whiteSpacePrefix ''abc'' = 0 \<and> \<not> isDigit (hd ''abc'')"
    by (simp add: whiteSpacePrefix_def StrWhiteSpaceChars_def isDigit_def)
  have q: "run_dataQuery ''total_pings'' ''ASC'' (Finite 2) (Finite 2) ?db =
      Some [\<lparr>ip_hmac = ''a'', first_seen = 5, last_seen = 30, total_pings = 3\<rparr>]"
    by code_simp
  have r: "resolve_page (Some ''2'') = Finite 2" "resolve_pageSize (Some ''2'') = Finite 2"
    "resolve_page (Some ''3'') = Finite 3" "resolve_pageSize (Some ''20'') = Finite 20"
    by (simp_all add: resolve_page_Some resolve_pageSize_Some ex isNaN_def)
  note i1 = pagination_resolution[where s = "''abc''" and pageParam = "Some ''3''"
      and pageSizeParam = "Some ''20''" and ds = "''42''" and rest = "''abc''" and n = 42
      and sortByParam = None and sortOrderParam = None and p = 3 and k = 20 and db = ?db]
  note i2 = pagination_resolution[where s = "''0''" and pageParam = "Some ''2''"
      and pageSizeParam = "Some ''2''" and ds = "''12''" and rest = "''.9''" and n = 12
      and sortByParam = "Some ''total_pings''" and sortOrderParam = "Some ''asc''"
      and p = 2 and k = 2 and db = ?db]
  note i3 = pagination_resolution[where s = "''500''" and pageParam = "Some ''3''"
      and pageSizeParam = "Some ''20''" and ds = "''42''" and rest = "''abc''" and n = 42
      and sortByParam = None and sortOrderParam = None and p = 3 and k = 20 and db = ?db]
  note i4 = pagination_resolution[where s = "''7''" and pageParam = "Some ''3''"
      and pageSizeParam = "Some ''20''" and ds = "''42''" and rest = "''abc''" and n = 42
      and sortByParam = None and sortOrderParam = None and p = 3 and k = 20 and db = ?db]
  have o3: "resolve_offset (Some ''3'') (Some ''20'') = Finite 40"
  proof -
    have "resolve_page (Some ''3'') = Finite (of_int 3)
        \<and> resolve_pageSize (Some ''20'') = Finite (of_int 20) \<and> (3 - 1) * 20 \<le> (2::int) ^ 53"
      by (simp add: r)
    then have "resolve_offset (Some ''3'') (Some ''20'') = Finite (of_int ((3 - 1) * 20))"
      by (rule i1[THEN conj_skip16, THEN conjunct1, THEN mp])
    then show ?thesis by simp
  qed
  have b: "bindings (dataStatement (Some ''3'') (Some ''20'') None None) =
      [Number (Finite 20), Number (Finite 40)]"
    using i1[THEN conj_skip8, THEN conj_skip4, THEN conj_skip2, THEN conjunct1]
    by (simp only: r o3)
  have o: "resolve_offset (Some ''2'') (Some ''2'') = Finite 2"
  proof -
    have "resolve_page (Some ''2'') = Finite (of_int 2)
        \<and> resolve_pageSize (Some ''2'') = Finite (of_int 2) \<and> (2 - 1) * 2 \<le> (2::int) ^ 53"
      by (simp add: r)
    then have "resolve_offset (Some ''2'') (Some ''2'') = Finite (of_int ((2 - 1) * 2))"
      by (rule i2[THEN conj_skip16, THEN conjunct1, THEN mp])
    then show ?thesis by simp
  qed
  have tp: "roundToDouble (of_int (run_countQuery ?db)) = Finite 3"
    "Math_ceil (js_div (roundToDouble (of_int (run_countQuery ?db))) (resolve_pageSize (Some ''2'')))
       = Finite 2"
  proof -
    have "run_countQuery ?db < 2 ^ 53 \<and> resolve_pageSize (Some ''2'') = Finite (of_int 2)"
      by (simp add: c r)
    then have e: "roundToDouble (of_int (run_countQuery ?db)) = Finite (of_int (run_countQuery ?db))
        \<and> Math_ceil (js_div (roundToDouble (of_int (run_countQuery ?db)))
                           (resolve_pageSize (Some ''2''))) =
            Finite (of_int \<lceil>(of_int (run_countQuery ?db) :: rat) / of_int 2\<rceil>)
        \<and> run_countQuery ?db \<le> \<lceil>(of_int (run_countQuery ?db) :: rat) / of_int 2\<rceil> * 2
        \<and> (\<lceil>(of_int (run_countQuery ?db) :: rat) / of_int 2\<rceil> - 1) * 2 < run_countQuery ?db"
      by (rule i2[THEN conj_skip16, THEN conj_skip2, THEN mp])
    have t: "\<lceil>(of_int (run_countQuery ?db) :: rat) / of_int 2\<rceil> = 2"
      by (simp add: c ceiling_eq_iff)
    show "roundToDouble (of_int (run_countQuery ?db)) = Finite 3"
      using e[THEN conjunct1] by (simp add: c)
    show "Math_ceil (js_div (roundToDouble (of_int (run_countQuery ?db))) (resolve_pageSize (Some ''2'')))
       = Finite 2"
      using e[THEN conjunct2, THEN conjunct1] by (simp only: t) simp
  qed
  have h: "unique_activity_handler ''GET'' (Some ''2'') (Some ''2'') (Some ''total_pings'') (Some ''asc'') ?db =
       Json_Response
         \<lparr>data = [\<lparr>ip_hmac = ''a'', first_seen = 5, last_seen = 30, total_pings = 3\<rparr>],
          pagination = \<lparr>totalItems = Finite 3, currentPage = Finite 2, pageSize = Finite 2,
                        totalPages = Finite 2\<rparr>\<rparr>"
  proof -
    have "run_dataQuery (orderByColumn (Some ''total_pings''))
        (toUpperCase (resolve_sortOrder (Some ''asc''))) (resolve_pageSize (Some ''2''))
        (resolve_offset (Some ''2'') (Some ''2'')) ?db =
      Some [\<lparr>ip_hmac = ''a'', first_seen = 5, last_seen = 30, total_pings = 3\<rparr>]"
      by (simp add: orderByColumn_cases direction_cases r o q)
    then have "unique_activity_handler ''GET'' (Some ''2'') (Some ''2'') (Some ''total_pings'') (Some ''asc'') ?db =
       Json_Response
         \<lparr>data = [\<lparr>ip_hmac = ''a'', first_seen = 5, last_seen = 30, total_pings = 3\<rparr>],
          pagination = \<lparr>totalItems = roundToDouble (of_int (run_countQuery ?db)),
                        currentPage = resolve_page (Some ''2''),
                        pageSize = resolve_pageSize (Some ''2''),
                        totalPages = Math_ceil (js_div (roundToDouble (of_int (run_countQuery ?db)))
                                                       (resolve_pageSize (Some ''2'')))\<rparr>\<rparr>"
      by (simp add: unique_activity_handler_def Let_def del: js_div.simps Math_ceil.simps)
    then show ?thesis by (simp only: tp(2)) (simp only: tp(1) r)
  qed
  have a0: "isNaN (parseInt10 ''abc'') \<or> js_less (parseInt10 ''abc'') (Finite 1)"
    by (simp add: ex isNaN_def)
  have a: "isNaN (parseInt10 ''abc'')
      \<and> resolve_page (Some ''abc'') = Finite 1 \<and> resolve_pageSize (Some ''abc'') = Finite 10"
    using i1[THEN conj_skip2, THEN conjunct1, THEN mp, OF a0]
      i1[THEN conj_skip4, THEN conj_skip2, THEN conjunct1, THEN mp, OF a0]
    by (simp add: ex isNaN_def)
  have z0: "isNaN (parseInt10 ''0'') \<or> js_less (parseInt10 ''0'') (Finite 1)"
    by (simp add: ex)
  have z: "js_less (parseInt10 ''0'') (Finite 1)
      \<and> resolve_page (Some ''0'') = Finite 1 \<and> resolve_pageSize (Some ''0'') = Finite 10"
    using i2[THEN conj_skip2, THEN conjunct1, THEN mp, OF z0]
      i2[THEN conj_skip4, THEN conj_skip2, THEN conjunct1, THEN mp, OF z0]
    by (simp add: ex)
  have f0: "js_less (Finite 100) (parseInt10 ''500'')" by (simp add: ex)
  have f1: "\<not> isNaN (parseInt10 ''500'') \<and> \<not> js_less (parseInt10 ''500'') (Finite 1)"
    by (simp add: ex isNaN_def)
  have f: "js_less (Finite 100) (parseInt10 ''500'')
      \<and> resolve_page (Some ''500'') = Finite 500 \<and> resolve_pageSize (Some ''500'') = Finite 100"
    using i3[THEN conj_skip2, THEN conjunct2, THEN conjunct1, THEN mp, OF f1]
      i3[THEN conj_skip4, THEN conj_skip2, THEN conjunct2, THEN conjunct1, THEN mp, OF f0]
    by (simp add: ex)
  have s0: "\<not> isNaN (parseInt10 ''7'') \<and> \<not> js_less (parseInt10 ''7'') (Finite 1)"
    and s1: "\<not> isNaN (parseInt10 ''7'') \<and> \<not> js_less (parseInt10 ''7'') (Finite 1)
      \<and> \<not> js_less (Finite 100) (parseInt10 ''7'')"
    by (simp_all add: ex isNaN_def)
  have s: "\<not> isNaN (parseInt10 ''7'') \<and> \<not> js_less (parseInt10 ''7'') (Finite 1)
      \<and> \<not> js_less (Finite 100) (parseInt10 ''7'')
      \<and> resolve_page (Some ''7'') = Finite 7 \<and> resolve_pageSize (Some ''7'') = Finite 7"
    using i4[THEN conj_skip2, THEN conjunct2, THEN conjunct1, THEN mp, OF s0]
      i4[THEN conj_skip8, THEN conjunct1, THEN mp, OF s1]
    by (simp add: ex isNaN_def)
  have m: "parseInt10 ''42abc'' = Finite 42 \<and> resolve_pageSize (Some ''42abc'') = Finite 42
      \<and> parseInt10 ''12.9'' = Finite 12 \<and> resolve_page (Some ''12.9'') = Finite 12"
    by (simp add: ex resolve_page_Some resolve_pageSize_Some isNaN_def)
  have l: "\<bar>42::int\<bar> \<le> 2 ^ 53" "(3 - 1) * 20 \<le> (2::int) ^ 53" by simp_all
  have r': "resolve_page (Some ''3'') = Finite (of_int 3)"
    "resolve_pageSize (Some ''20'') = Finite (of_int 20)"
    "resolve_pageSize (Some ''2'') = Finite (of_int 2)"
    by (simp_all add: r)
  have c53: "run_countQuery ?db < 2 ^ 53" by (simp add: c)
  show ?thesis
    by (intro conjI a[THEN conjunct1] a[THEN conjunct2, THEN conjunct1] a[THEN conjunct2, THEN conjunct2]
        z[THEN conjunct1] z[THEN conjunct2, THEN conjunct1] z[THEN conjunct2, THEN conjunct2]
        f[THEN conjunct1] f[THEN conjunct2, THEN conjunct1] f[THEN conjunct2, THEN conjunct2]
        s[THEN conjunct1] s[THEN conj_skip2, THEN conjunct1] s[THEN conjunct2, THEN conjunct1]
        s[THEN conj_skip2, THEN conjunct2, THEN conjunct1] s[THEN conj_skip4]
        d[THEN conjunct1] d[THEN conjunct2, THEN conjunct1] d[THEN conj_skip2, THEN conjunct1]
        d[THEN conj_skip2, THEN conjunct2, THEN conjunct1] d[THEN conj_skip4] l
        m[THEN conjunct1] m[THEN conjunct2, THEN conjunct1] m[THEN conj_skip2, THEN conjunct1]
        m[THEN conj_skip2, THEN conjunct2] w[THEN conjunct1] w[THEN conjunct2] r' b c53 h)
qed

text \<open>
  The claim as stated, "page size values below 1 clamp to 1", fails: \<^verbatim>\<open>pageSize=0\<close> gives
  a page size of 10.
\<close>

theorem pageSize_below_one_counterexample:
  "parseInt10 ''0'' = Finite 0
   \<and> resolve_pageSize (Some ''0'') = Finite 10
   \<and> resolve_pageSize (Some ''0'') \<noteq> Finite 1
   \<and> unique_activity_handler ''GET'' None (Some ''0'') None None \<lparr>ip_registry = [], ip_pings = []\<rparr> =
       Json_Response
         \<lparr>data = [],
          pagination = \<lparr>totalItems = Finite 0, currentPage = Finite 1, pageSize = Finite 10,
                        totalPages = Finite 0\<rparr>\<rparr>"
proof -
  have p: "parseInt10 ''0'' = Finite 0" by (rule parseInt10_examples)
  have s: "resolve_pageSize (Some ''0'') = Finite 10"
    by (simp add: resolve_pageSize_Some p isNaN_def)
  have pg: "resolve_page None = Finite 1" by (simp add: resolve_page_def isNaN_def)
  have z: "roundToDouble 0 = Finite 0" by (simp add: roundToDouble_def)
  have o: "resolve_offset None (Some ''0'') = Finite 0"
    by (simp add: resolve_offset_def pg s z)
  have q: "run_dataQuery ''first_seen'' ''DESC'' (Finite 10) (Finite 0) \<lparr>ip_registry = [], ip_pings = []\<rparr>
      = Some []"
    by code_simp
  have c: "run_countQuery \<lparr>ip_registry = [], ip_pings = []\<rparr> = 0"
    by (simp add: run_countQuery_def)
  have h: "unique_activity_handler ''GET'' None (Some ''0'') None None \<lparr>ip_registry = [], ip_pings = []\<rparr> =
       Json_Response
         \<lparr>data = [],
          pagination = \<lparr>totalItems = Finite 0, currentPage = Finite 1, pageSize = Finite 10,
                        totalPages = Finite 0\<rparr>\<rparr>"
    by (simp add: unique_activity_handler_def Let_def pg s o orderByColumn_cases direction_cases
        q c z)
  show ?thesis using p s h by simp
qed

text \<open>
  C10, as the code has it. When the page number is beyond the last page and the log has
  fewer than \<open>2 ^ 53\<close> identifiers, a GET is answered with a JSON body whose data is
  empty provided the offset is below \<open>2 ^ 63\<close>, which it is for every page number whose
  product with the page size is at most \<open>2 ^ 53\<close>; \<open>currentPage\<close> is then the page number
  as read (not the last page), and \<open>totalItems\<close> and \<open>totalPages\<close> are those of every
  other page parameter that is answered. When the offset is \<open>2 ^ 63\<close> or more, which it is
  for every page number above \<open>2 ^ 63\<close>, the storage refuses it and the answer is a 500.
\<close>

theorem page_beyond_last_page:
  assumes "run_countQuery db < 2 ^ 53"
    and "js_less (Math_ceil (js_div (roundToDouble (of_int (run_countQuery db)))
                                    (resolve_pageSize pageSizeParam)))
                 (resolve_page pageParam)"
  shows "unique_activity_handler ''GET'' pageParam pageSizeParam sortByParam sortOrderParam db =
           (if js_less (resolve_offset pageParam pageSizeParam) (Finite (2 ^ 63))
            then Json_Response
                   \<lparr>data = [],
                    pagination =
                      \<lparr>totalItems = roundToDouble (of_int (run_countQuery db)),
                       currentPage = resolve_page pageParam,
                       pageSize = resolve_pageSize pageSizeParam,
                       totalPages =
                         Math_ceil (js_div (roundToDouble (of_int (run_countQuery db)))
                                           (resolve_pageSize pageSizeParam))\<rparr>\<rparr>
            else Plain_Response 500 ''Error querying database'')
       \<and> (resolve_page pageParam = Finite (of_int p) \<and> resolve_pageSize pageSizeParam = Finite (of_int k)
            \<and> (p - 1) * k \<le> 2 ^ 53 \<longrightarrow>
            js_less (resolve_offset pageParam pageSizeParam) (Finite (2 ^ 63)))
       \<and> (resolve_page pageParam = PosInfinity
            \<or> resolve_page pageParam = Finite (of_int p) \<and> 2 ^ 63 < p \<longrightarrow>
            \<not> js_less (resolve_offset pageParam pageSizeParam) (Finite (2 ^ 63)))
       \<and> (\<forall>otherPage.
            unique_activity_handler ''GET'' otherPage pageSizeParam sortByParam sortOrderParam db =
              Plain_Response 500 ''Error querying database''
            \<or> (\<exists>rows.
                 unique_activity_handler ''GET'' otherPage pageSizeParam sortByParam sortOrderParam db =
                   Json_Response
                     \<lparr>data = rows,
                      pagination =
                        \<lparr>totalItems = roundToDouble (of_int (run_countQuery db)),
                         currentPage = resolve_page otherPage,
                         pageSize = resolve_pageSize pageSizeParam,
                         totalPages =
                           Math_ceil (js_div (roundToDouble (of_int (run_countQuery db)))
                                             (resolve_pageSize pageSizeParam))\<rparr>\<rparr>))"
proof -
  let ?c = "run_countQuery db"
  let ?off = "resolve_offset pageParam pageSizeParam"
  let ?json = "\<lambda>rows page. Json_Response
                   \<lparr>data = rows,
                    pagination =
                      \<lparr>totalItems = roundToDouble (of_int (run_countQuery db)),
                       currentPage = resolve_page page,
                       pageSize = resolve_pageSize pageSizeParam,
                       totalPages =
                         Math_ceil (js_div (roundToDouble (of_int (run_countQuery db)))
                                           (resolve_pageSize pageSizeParam))\<rparr>\<rparr>"
  obtain rows j z where len: "int (length rows) = ?c"
    and j: "1 \<le> j" "j \<le> 100" "resolve_pageSize pageSizeParam = Finite (of_int j)"
    and z: "?off = PosInfinity \<or> 0 \<le> z \<and> ?off = Finite (of_int z)"
    and resp: "unique_activity_handler ''GET'' pageParam pageSizeParam sortByParam sortOrderParam db =
         (if js_less ?off (Finite (2 ^ 63)) then ?json (take (nat j) (drop (nat z) rows)) pageParam
          else Plain_Response 500 ''Error querying database'')"
    using unique_activity_GET[of db pageSizeParam pageParam sortByParam sortOrderParam] by blast
  define tp where "tp = \<lceil>(of_int ?c :: rat) / of_int j\<rceil>"
  have tpe: "Math_ceil (js_div (roundToDouble (of_int ?c)) (resolve_pageSize pageSizeParam)) =
      Finite (of_int tp)"
    using totalPages_exact(2)[OF assms(1) j(3)] by (simp add: tp_def)
  have j0: "0 < j" using j(1) by simp
  have ctp: "?c \<le> tp * j" using ceiling_div_bounds(1)[OF j0, of ?c] by (simp add: tp_def)
  have empty: "take (nat j) (drop (nat z) rows) = []" if lt: "js_less ?off (Finite (2 ^ 63))"
  proof -
    have fin: "?off \<noteq> PosInfinity" using lt by auto
    then have zz: "0 \<le> z" "?off = Finite (of_int z)" using z by auto
    have "resolve_page pageParam \<noteq> PosInfinity"
      using resolve_offset_infinite[of pageParam pageSizeParam] fin by blast
    then obtain pg where pg: "1 \<le> pg" "resolve_page pageParam = Finite (of_int pg)"
      using resolve_page_cases[of pageParam] by blast
    have "js_less (Finite (of_int tp)) (Finite (of_int pg))"
      using assms(2) by (simp only: tpe pg(2))
    then have "tp < pg" by simp
    then have "tp \<le> pg - 1" by simp
    then have "tp * j \<le> (pg - 1) * j" using j0 by (simp add: mult_right_mono)
    then have c1: "?c \<le> (pg - 1) * j" using ctp by linarith
    have c2: "?c \<le> 2 ^ 53" using assms(1) by simp
    have "?off = PosInfinity \<or> (\<exists>z'. ?c \<le> z' \<and> ?off = Finite (of_int z'))"
      using pg(2) j(3) c2 c1 by (rule resolve_offset_ge)
    then obtain z' where z': "?c \<le> z'" "?off = Finite (of_int z')" using fin by blast
    have "z' = z" using z'(2) zz(2) by simp
    then have "length rows \<le> nat z" using z'(1) len by linarith
    then show ?thesis by simp
  qed
  have main: "unique_activity_handler ''GET'' pageParam pageSizeParam sortByParam sortOrderParam db =
         (if js_less ?off (Finite (2 ^ 63)) then ?json [] pageParam
          else Plain_Response 500 ''Error querying database'')"
    using resp empty by (cases "js_less ?off (Finite (2 ^ 63))") simp_all
  have small: "resolve_page pageParam = Finite (of_int p) \<and> resolve_pageSize pageSizeParam = Finite (of_int k)
            \<and> (p - 1) * k \<le> 2 ^ 53 \<longrightarrow> js_less ?off (Finite (2 ^ 63))"
  proof (intro impI, elim conjE)
    assume a: "resolve_page pageParam = Finite (of_int p)"
      "resolve_pageSize pageSizeParam = Finite (of_int k)" "(p - 1) * k \<le> 2 ^ 53"
    have "?off = Finite (of_int ((p - 1) * k))" using a by (rule resolve_offset_exact)
    moreover have "(p - 1) * k < 2 ^ 63"
    proof -
      have "(2::int) ^ 53 < 2 ^ 63" by simp
      with a(3) show ?thesis by (rule le_less_trans)
    qed
    ultimately show "js_less ?off (Finite (2 ^ 63))" by (simp only: js_less_of_int)
  qed
  have huge: "resolve_page pageParam = PosInfinity
            \<or> resolve_page pageParam = Finite (of_int p) \<and> 2 ^ 63 < p \<longrightarrow>
            \<not> js_less ?off (Finite (2 ^ 63))"
    using resolve_offset_infinite[of pageParam pageSizeParam]
      resolve_offset_huge[of pageParam p pageSizeParam] by auto
  have other: "\<forall>otherPage.
      unique_activity_handler ''GET'' otherPage pageSizeParam sortByParam sortOrderParam db =
        Plain_Response 500 ''Error querying database''
      \<or> (\<exists>rows. unique_activity_handler ''GET'' otherPage pageSizeParam sortByParam sortOrderParam db =
            ?json rows otherPage)"
  proof
    fix otherPage
    obtain rows' j' z' where
      "unique_activity_handler ''GET'' otherPage pageSizeParam sortByParam sortOrderParam db =
         (if js_less (resolve_offset otherPage pageSizeParam) (Finite (2 ^ 63))
          then ?json (take (nat j') (drop (nat z') rows')) otherPage
          else Plain_Response 500 ''Error querying database'')"
      using unique_activity_GET[of db pageSizeParam otherPage sortByParam sortOrderParam] by blast
    then show "unique_activity_handler ''GET'' otherPage pageSizeParam sortByParam sortOrderParam db =
        Plain_Response 500 ''Error querying database''
      \<or> (\<exists>rows. unique_activity_handler ''GET'' otherPage pageSizeParam sortByParam sortOrderParam db =
            ?json rows otherPage)"
      by (cases "js_less (resolve_offset otherPage pageSizeParam) (Finite (2 ^ 63))") auto
  qed
  show ?thesis
    by (intro conjI main small huge other)
qed

theorem page_beyond_last_page_witness:
  "run_countQuery
        \<lparr>ip_registry = [],
         ip_pings = [(''a'', 5), (''b'', 7), (''a'', 9), (''c'', 1), (''b'', 20), (''a'', 30)]\<rparr> < 2 ^ 53
   \<and> js_less (Math_ceil (js_div (roundToDouble (of_int (run_countQuery
        \<lparr>ip_registry = [],
         ip_pings = [(''a'', 5), (''b'', 7), (''a'', 9), (''c'', 1), (''b'', 20), (''a'', 30)]\<rparr>)))
          (resolve_pageSize (Some ''2'')))) (resolve_page (Some ''5''))
   \<and> resolve_page (Some ''5'') = Finite (of_int 5) \<and> resolve_pageSize (Some ''2'') = Finite (of_int 2)
   \<and> (5 - 1) * 2 \<le> (2::int) ^ 53
   \<and> unique_activity_handler ''GET'' (Some ''5'') (Some ''2'') (Some ''total_pings'') (Some ''asc'')
        \<lparr>ip_registry = [],
         ip_pings = [(''a'', 5), (''b'', 7), (''a'', 9), (''c'', 1), (''b'', 20), (''a'', 30)]\<rparr> =
       Json_Response
         \<lparr>data = [],
          pagination = \<lparr>totalItems = Finite 3, currentPage = Finite 5, pageSize = Finite 2,
                        totalPages = Finite 2\<rparr>\<rparr>"
proof -
  let ?db = "\<lparr>ip_registry = [],
         ip_pings = [(''a'', 5), (''b'', 7), (''a'', 9), (''c'', 1), (''b'', 20), (''a'', 30)]\<rparr>"
  have c: "run_countQuery ?db = 3" by code_simp
  have r: "resolve_page (Some ''5'') = Finite (of_int 5)" "resolve_pageSize (Some ''2'') = Finite (of_int 2)"
    by (simp_all add: resolve_pageSize_Some resolve_page_Some parseInt10_examples isNaN_def)
  have c53: "run_countQuery ?db < 2 ^ 53" by (simp add: c)
  have t: "\<lceil>(of_int (run_countQuery ?db) :: rat) / of_int 2\<rceil> = 2"
    by (simp add: c ceiling_eq_iff)
  have tot: "roundToDouble (of_int (run_countQuery ?db)) = Finite 3"
    using totalPages_exact(1)[OF c53 r(2)] by (simp add: c)
  have tp: "Math_ceil (js_div (roundToDouble (of_int (run_countQuery ?db))) (resolve_pageSize (Some ''2'')))
      = Finite 2"
    using totalPages_exact(2)[OF c53 r(2)] by (simp only: t) simp
  have h: "js_less (Math_ceil (js_div (roundToDouble (of_int (run_countQuery ?db)))
          (resolve_pageSize (Some ''2'')))) (resolve_page (Some ''5''))"
    by (simp only: tp) (simp add: r)
  have le: "(5 - 1) * 2 \<le> (2::int) ^ 53" by simp
  note i = page_beyond_last_page[OF c53 h, where sortByParam = "Some ''total_pings''"
      and sortOrderParam = "Some ''asc''" and p = 5 and k = 2]
  have lt: "js_less (resolve_offset (Some ''5'') (Some ''2'')) (Finite (2 ^ 63))"
    using r le by (intro i[THEN conjunct2, THEN conjunct1, THEN mp] conjI)
  have "unique_activity_handler ''GET'' (Some ''5'') (Some ''2'') (Some ''total_pings'') (Some ''asc'') ?db =
       Json_Response
         \<lparr>data = [],
          pagination = \<lparr>totalItems = roundToDouble (of_int (run_countQuery ?db)),
                        currentPage = resolve_page (Some ''5''),
                        pageSize = resolve_pageSize (Some ''2''),
                        totalPages = Math_ceil (js_div (roundToDouble (of_int (run_countQuery ?db)))
                                                       (resolve_pageSize (Some ''2'')))\<rparr>\<rparr>"
    using i[THEN conjunct1] lt by (simp only: if_True)
  then have res: "unique_activity_handler ''GET'' (Some ''5'') (Some ''2'') (Some ''total_pings'') (Some ''asc'') ?db =
       Json_Response
         \<lparr>data = [],
          pagination = \<lparr>totalItems = Finite 3, currentPage = Finite 5, pageSize = Finite 2,
                        totalPages = Finite 2\<rparr>\<rparr>"
    by (simp only: tp) (simp add: tot r)
  show ?thesis
    by (intro conjI c53 h r le res)
qed

text \<open>
  The claim as stated, "the operation still succeeds", fails for a page number whose
  offset the storage refuses: \<^verbatim>\<open>page=99999999999999999999999\<close> is read as
  99999999999999991611392, beyond the two pages of the log, and the answer is a 500.
\<close>

theorem page_beyond_last_page_counterexample:
  "resolve_page (Some ''99999999999999999999999'') = Finite 99999999999999991611392
   \<and> Math_ceil (js_div (roundToDouble (of_int (run_countQuery
        \<lparr>ip_registry = [],
         ip_pings = [(''a'', 5), (''b'', 7), (''a'', 9), (''c'', 1), (''b'', 20), (''a'', 30)]\<rparr>)))
          (resolve_pageSize (Some ''2''))) = Finite 2
   \<and> js_less (Finite 2) (resolve_page (Some ''99999999999999999999999''))
   \<and> unique_activity_handler ''GET'' (Some ''99999999999999999999999'') (Some ''2'') None None
        \<lparr>ip_registry = [],
         ip_pings = [(''a'', 5), (''b'', 7), (''a'', 9), (''c'', 1), (''b'', 20), (''a'', 30)]\<rparr> =
       Plain_Response 500 ''Error querying database''"
proof -
  let ?db = "\<lparr>ip_registry = [],
         ip_pings = [(''a'', 5), (''b'', 7), (''a'', 9), (''c'', 1), (''b'', 20), (''a'', 30)]\<rparr>"
  have c: "run_countQuery ?db = 3" by code_simp
  have c53: "run_countQuery ?db < 2 ^ 53" by (simp add: c)
  have r: "resolve_pageSize (Some ''2'') = Finite 2"
    by (simp add: resolve_pageSize_Some parseInt10_examples isNaN_def)
  have pg: "resolve_page (Some ''99999999999999999999999'') = Finite (of_int 99999999999999991611392)"
    by (simp add: resolve_page_Some parseInt10_huge isNaN_def)
  have t: "\<lceil>(3::rat) / 2\<rceil> = 2" by (simp add: ceiling_eq_iff)
  have tp: "Math_ceil (js_div (roundToDouble (of_int (run_countQuery ?db))) (resolve_pageSize (Some ''2'')))
      = Finite 2"
    using totalPages_exact(2)[OF c53, of "Some ''2''" 2] r by (simp add: c t)
  have "(2::int) ^ 63 < 99999999999999991611392" by simp
  then have no: "\<not> js_less (resolve_offset (Some ''99999999999999999999999'') (Some ''2''))
      (Finite (2 ^ 63))"
    using pg by (rule resolve_offset_huge[rotated])
  have "unique_activity_handler ''GET'' (Some ''99999999999999999999999'') (Some ''2'') None None ?db =
       Plain_Response 500 ''Error querying database''"
    using unique_activity_GET[of ?db "Some ''2''" "Some ''99999999999999999999999''" None None] no
    by auto
  then show ?thesis using pg tp by simp
qed

subsection \<open>The sort order\<close>

text \<open>
  C7. Whatever \<^verbatim>\<open>sortBy\<close> and \<^verbatim>\<open>sortOrder\<close> the caller sends, the column of the
  \<^verbatim>\<open>ORDER BY\<close> is \<^verbatim>\<open>first_seen\<close> or \<^verbatim>\<open>total_pings\<close> and the direction is \<^verbatim>\<open>ASC\<close> or
  \<^verbatim>\<open>DESC\<close>; a value outside the allow-list becomes the default (\<^verbatim>\<open>first_seen\<close>, \<^verbatim>\<open>desc\<close>),
  one inside it is kept; so the text of the data statement is one of four fixed texts,
  and the only other caller-dependent values, the page size and the offset, are bound
  as numbers, not written into the text.
\<close>

theorem order_by_from_allow_lists:
  "orderByColumn sortByParam \<in> {''first_seen'', ''total_pings''}
   \<and> toUpperCase (resolve_sortOrder sortOrderParam) \<in> {''ASC'', ''DESC''}
   \<and> (sortByParam \<notin> {Some ''first_seen'', Some ''total_pings''} \<longrightarrow>
        resolve_sortBy sortByParam = ''first_seen'' \<and> orderByColumn sortByParam = ''first_seen'')
   \<and> (sortOrderParam \<notin> {Some ''asc'', Some ''desc''} \<longrightarrow>
        resolve_sortOrder sortOrderParam = ''desc''
        \<and> toUpperCase (resolve_sortOrder sortOrderParam) = ''DESC'')
   \<and> (sortByParam \<in> {Some ''first_seen'', Some ''total_pings''} \<longrightarrow>
        Some (orderByColumn sortByParam) = sortByParam)
   \<and> (sortOrderParam \<in> {Some ''asc'', Some ''desc''} \<longrightarrow>
        Some (toUpperCase (resolve_sortOrder sortOrderParam)) = map_option toUpperCase sortOrderParam)
   \<and> sql (dataStatement pageParam pageSizeParam sortByParam sortOrderParam) \<in>
       {''SELECT ip_hmac, MIN(ping_timestamp) as first_seen, MAX(ping_timestamp) as last_seen, COUNT(ping_timestamp) as total_pings FROM ip_pings GROUP BY ip_hmac ORDER BY first_seen ASC LIMIT ? OFFSET ?;'',
        ''SELECT ip_hmac, MIN(ping_timestamp) as first_seen, MAX(ping_timestamp) as last_seen, COUNT(ping_timestamp) as total_pings FROM ip_pings GROUP BY ip_hmac ORDER BY first_seen DESC LIMIT ? OFFSET ?;'',
        ''SELECT ip_hmac, MIN(ping_timestamp) as first_seen, MAX(ping_timestamp) as last_seen, COUNT(ping_timestamp) as total_pings FROM ip_pings GROUP BY ip_hmac ORDER BY total_pings ASC LIMIT ? OFFSET ?;'',
        ''SELECT ip_hmac, MIN(ping_timestamp) as first_seen, MAX(ping_timestamp) as last_seen, COUNT(ping_timestamp) as total_pings FROM ip_pings GROUP BY ip_hmac ORDER BY total_pings DESC LIMIT ? OFFSET ?;''}
   \<and> bindings (dataStatement pageParam pageSizeParam sortByParam sortOrderParam) =
       [Number (resolve_pageSize pageSizeParam),
        Number (js_mul (js_sub (resolve_page pageParam) (Finite 1)) (resolve_pageSize pageSizeParam))]"
proof -
  have s: "sql (dataStatement pageParam pageSizeParam sortByParam sortOrderParam) =
      ''SELECT ip_hmac, MIN(ping_timestamp) as first_seen, MAX(ping_timestamp) as last_seen, '' @
      ''COUNT(ping_timestamp) as total_pings FROM ip_pings GROUP BY ip_hmac ORDER BY '' @
      orderByColumn sortByParam @ '' '' @ toUpperCase (resolve_sortOrder sortOrderParam) @
      '' LIMIT ? OFFSET ?;''"
    by (simp add: dataStatement_def Let_def)
  have b: "bindings (dataStatement pageParam pageSizeParam sortByParam sortOrderParam) =
       [Number (resolve_pageSize pageSizeParam),
        Number (js_mul (js_sub (resolve_page pageParam) (Finite 1)) (resolve_pageSize pageSizeParam))]"
    by (simp add: dataStatement_def resolve_offset_def Let_def)
  have t: "sql (dataStatement pageParam pageSizeParam sortByParam sortOrderParam) \<in>
       {''SELECT ip_hmac, MIN(ping_timestamp) as first_seen, MAX(ping_timestamp) as last_seen, COUNT(ping_timestamp) as total_pings FROM ip_pings GROUP BY ip_hmac ORDER BY first_seen ASC LIMIT ? OFFSET ?;'',
        ''SELECT ip_hmac, MIN(ping_timestamp) as first_seen, MAX(ping_timestamp) as last_seen, COUNT(ping_timestamp) as total_pings FROM ip_pings GROUP BY ip_hmac ORDER BY first_seen DESC LIMIT ? OFFSET ?;'',
        ''SELECT ip_hmac, MIN(ping_timestamp) as first_seen, MAX(ping_timestamp) as last_seen, COUNT(ping_timestamp) as total_pings FROM ip_pings GROUP BY ip_hmac ORDER BY total_pings ASC LIMIT ? OFFSET ?;'',
        ''SELECT ip_hmac, MIN(ping_timestamp) as first_seen, MAX(ping_timestamp) as last_seen, COUNT(ping_timestamp) as total_pings FROM ip_pings GROUP BY ip_hmac ORDER BY total_pings DESC LIMIT ? OFFSET ?;''}"
    unfolding s orderByColumn_cases direction_cases by simp
  have c: "orderByColumn sortByParam \<in> {''first_seen'', ''total_pings''}"
    by (simp add: orderByColumn_cases)
  have d: "toUpperCase (resolve_sortOrder sortOrderParam) \<in> {''ASC'', ''DESC''}"
    by (simp add: direction_cases)
  have e: "sortByParam \<notin> {Some ''first_seen'', Some ''total_pings''} \<longrightarrow>
        resolve_sortBy sortByParam = ''first_seen'' \<and> orderByColumn sortByParam = ''first_seen''"
    by (simp add: orderByColumn_cases resolve_sortBy_cases)
  have f: "sortOrderParam \<notin> {Some ''asc'', Some ''desc''} \<longrightarrow>
        resolve_sortOrder sortOrderParam = ''desc''
        \<and> toUpperCase (resolve_sortOrder sortOrderParam) = ''DESC''"
    by (simp add: resolve_sortOrder_cases toUpperCase_desc)
  have g: "sortByParam \<in> {Some ''first_seen'', Some ''total_pings''} \<longrightarrow>
        Some (orderByColumn sortByParam) = sortByParam"
    by (auto simp add: orderByColumn_cases)
  have h: "sortOrderParam \<in> {Some ''asc'', Some ''desc''} \<longrightarrow>
        Some (toUpperCase (resolve_sortOrder sortOrderParam)) = map_option toUpperCase sortOrderParam"
    by (auto simp add: direction_cases toUpperCase_asc toUpperCase_desc)
  show ?thesis
    by (intro conjI c d e f g h t b)
qed

theorem order_by_from_allow_lists_witness:
  "Some ''drop table'' \<notin> {Some ''first_seen'', Some ''total_pings''}
   \<and> Some ''sideways; --'' \<notin> {Some ''asc'', Some ''desc''}
   \<and> dataStatement (Some ''3'') (Some ''20'') (Some ''drop table'') (Some ''sideways; --'') =
       \<lparr>sql = ''SELECT ip_hmac, MIN(ping_timestamp) as first_seen, MAX(ping_timestamp) as last_seen, COUNT(ping_timestamp) as total_pings FROM ip_pings GROUP BY ip_hmac ORDER BY first_seen DESC LIMIT ? OFFSET ?;'',
        bindings = [Number (Finite 20), Number (Finite 40)]\<rparr>
   \<and> Some ''total_pings'' \<in> {Some ''first_seen'', Some ''total_pings''}
   \<and> Some ''asc'' \<in> {Some ''asc'', Some ''desc''}
   \<and> dataStatement (Some ''3'') (Some ''20'') (Some ''total_pings'') (Some ''asc'') =
       \<lparr>sql = ''SELECT ip_hmac, MIN(ping_timestamp) as first_seen, MAX(ping_timestamp) as last_seen, COUNT(ping_timestamp) as total_pings FROM ip_pings GROUP BY ip_hmac ORDER BY total_pings ASC LIMIT ? OFFSET ?;'',
        bindings = [Number (Finite 20), Number (Finite 40)]\<rparr>"
proof -
  note p = parseInt10_examples
  have r: "resolve_page (Some ''3'') = Finite 3" "resolve_pageSize (Some ''20'') = Finite 20"
    by (simp_all add: resolve_page_def resolve_pageSize_def p isNaN_def)
  have o: "js_mul (js_sub (Finite 3) (Finite 1)) (Finite 20) = Finite 40"
    using roundToDouble_exact[of 2] roundToDouble_exact[of 40] by simp
  have a: "orderByColumn (Some ''drop table'') = ''first_seen''
      \<and> toUpperCase (resolve_sortOrder (Some ''sideways; --'')) = ''DESC''"
    using order_by_from_allow_lists
      [of "Some ''drop table''" "Some ''sideways; --''" "Some ''3''" "Some ''20''"]
    by (simp add: toUpperCase_desc)
  have b: "orderByColumn (Some ''total_pings'') = ''total_pings''
      \<and> toUpperCase (resolve_sortOrder (Some ''asc'')) = ''ASC''"
    using order_by_from_allow_lists
      [of "Some ''total_pings''" "Some ''asc''" "Some ''3''" "Some ''20''"]
    by (simp add: toUpperCase_asc)
  show ?thesis
    by (simp add: dataStatement_def resolve_offset_def Let_def a b r o del: js_mul.simps js_sub.simps)
qed

end

